theory Spec2Isabelle
  imports Complex_Main "HOL-Library.AList" "HOL-Library.Product_Lexorder"
begin

section \<open>Numbers and strings of the host language\<close>

text \<open>
  The tokenizer (\<^verbatim>\<open>frontend/src/lib/tokenizer.ts\<close>) works on JavaScript numbers that are
  either integers or \<^verbatim>\<open>NaN\<close> (what \<^verbatim>\<open>parseInt\<close> returns for a token without digits).
  Integers are modelled exactly (the model does not round above \<open>2^53\<close>).
\<close>

datatype number = NaN | Num int


text \<open>
  The text of the merge-rule file is a \<open>string\<close>; a character stands for the code unit of
  the same value (Latin-1 range). The white space of \<^verbatim>\<open>trim\<close> and \<^verbatim>\<open>parseInt\<close> in that range:
  TAB, LF, VT, FF, CR, SPACE and NBSP.
\<close>

definition is_ws :: "char \<Rightarrow> bool" where
  "is_ws c = (let n = (of_char c :: nat) in n = 9 \<or> n = 10 \<or> n = 11 \<or> n = 12 \<or> n = 13 \<or> n = 32 \<or> n = 160)"

text \<open>\<^verbatim>\<open>s.split(c)\<close> for a one-character separator: always at least one part.\<close>

fun split_on :: "char \<Rightarrow> string \<Rightarrow> string list" where
  "split_on c [] = [[]]"
| "split_on c (x # xs) =
     (if x = c then [] # split_on c xs
      else (case split_on c xs of [] \<Rightarrow> [[x]] | w # ws \<Rightarrow> (x # w) # ws))"

text \<open>The value of a character as a digit (0-9, a-z, A-Z); 36 when it is none.\<close>

definition digit_val :: "char \<Rightarrow> nat" where
  "digit_val c = (let n = (of_char c :: nat) in
     if 48 \<le> n \<and> n \<le> 57 then n - 48
     else if 97 \<le> n \<and> n \<le> 122 then n - 87
     else if 65 \<le> n \<and> n \<le> 90 then n - 55
     else 36)"

text \<open>
  \<^verbatim>\<open>parseInt(s)\<close> without a radix: leading white space is dropped, then an optional sign,
  then an optional \<^verbatim>\<open>0x\<close> prefix that selects radix 16, then the longest run of digits of the
  radix; no digit gives \<^verbatim>\<open>NaN\<close>. What follows the digits is ignored.
\<close>

definition parseInt :: "string \<Rightarrow> number" where
  "parseInt s =
     (let s1 = dropWhile is_ws s;
          sign = (case s1 of c # r \<Rightarrow> if c = CHR ''-'' then (-1::int) else 1 | [] \<Rightarrow> 1);
          s2 = (case s1 of c # r \<Rightarrow> if c = CHR ''-'' \<or> c = CHR ''+'' then r else s1 | [] \<Rightarrow> []);
          hex = (take 2 s2 = ''0x'' \<or> take 2 s2 = ''0X'');
          radix = (if hex then 16 else 10 :: nat);
          s3 = (if hex then drop 2 s2 else s2);
          z = takeWhile (\<lambda>c. digit_val c < radix) s3
      in if z = [] then NaN
         else Num (sign * int (foldl (\<lambda>acc c. acc * radix + digit_val c) 0 z)))"

section \<open>The tokenizer state\<close>

text \<open>
  The key of the merge table is the string \<^verbatim>\<open>`${p0},${p1}`\<close>; it is represented by the pair
  \<open>(p0, p1)\<close>, which the string determines (the rendering of a number has no comma).
  The table is an association list in insertion order (a JavaScript \<^verbatim>\<open>Map\<close>), so that
  \<^verbatim>\<open>merges.size\<close> is its length. Byte arrays are lists of naturals below 256. The cache
  holds references to the arrays that \<^verbatim>\<open>encode\<close> returned, not copies of them.
\<close>

type_synonym pairKey = "number \<times> number"
type_synonym bytes = "nat list"
type_synonym jstring = "nat list"
type_synonym addr = nat

record tokenizer =
  merges :: "(pairKey \<times> number) list"
  vocab :: "number \<rightharpoonup> bytes"
  vocabSize :: nat
  cache :: "jstring \<rightharpoonup> addr"

text \<open>The constructor: empty tables, and one vocabulary entry per byte value.\<close>

definition init_vocab :: "number \<rightharpoonup> bytes" where
  "init_vocab = fold (\<lambda>i v. v(Num (int i) \<mapsto> [i])) [0..<256] Map.empty"

definition new_tokenizer :: tokenizer where
  "new_tokenizer = \<lparr> merges = [], vocab = init_vocab, vocabSize = 256, cache = Map.empty \<rparr>"

section \<open>Loading the merge rules\<close>

text \<open>The body of the loop over the lines of the file.\<close>

definition load_line :: "string \<Rightarrow> tokenizer \<Rightarrow> tokenizer" where
  "load_line line t =
     (if list_all is_ws line then t
      else let parts = split_on CHR '' '' line in
        if length parts \<noteq> 3 then t
        else let p0 = parseInt (parts ! 0);
                 p1 = parseInt (parts ! 1);
                 idx = parseInt (parts ! 2);
                 t1 = t\<lparr>merges := AList.update (p0, p1) idx (merges t)\<rparr>
             in (case (vocab t1 p0, vocab t1 p1) of
                   (Some v0, Some v1) \<Rightarrow> t1\<lparr>vocab := (vocab t1)(idx \<mapsto> v0 @ v1)\<rparr>
                 | _ \<Rightarrow> t1))"

text \<open>
  What \<^verbatim>\<open>fetch\<close> and \<^verbatim>\<open>response.text()\<close> can do: the request is rejected, the response is
  not \<^verbatim>\<open>ok\<close>, reading the body is rejected, or the body arrives.
\<close>

datatype fetch_result = FetchRejected | NotOk | TextRejected | Body string

datatype error = LoadError | EngineNotInitialized | SessionError

text \<open>The \<^verbatim>\<open>try\<close> block of \<^verbatim>\<open>load\<close>: every throw happens before the first mutation.\<close>

definition load_try :: "fetch_result \<Rightarrow> tokenizer \<Rightarrow> error + tokenizer" where
  "load_try r t =
     (case r of
        FetchRejected \<Rightarrow> Inl LoadError
      | NotOk \<Rightarrow> Inl LoadError
      | TextRejected \<Rightarrow> Inl LoadError
      | Body txt \<Rightarrow>
          (let t' = fold load_line (split_on CHR 0x0A txt) t
           in Inr (t'\<lparr>vocabSize := 256 + length (merges t')\<rparr>)))"

text \<open>
  \<^verbatim>\<open>load\<close> itself: the \<^verbatim>\<open>catch\<close> clause logs the error and returns normally, so the caller
  gets a fulfilled promise (\<open>Inr ()\<close>) in every case.
\<close>

definition load :: "fetch_result \<Rightarrow> tokenizer \<Rightarrow> (error + unit) \<times> tokenizer" where
  "load r t = (case load_try r t of Inl e \<Rightarrow> (Inr (), t) | Inr t' \<Rightarrow> (Inr (), t'))"

section \<open>Text and bytes\<close>

text \<open>
  A text (\<open>jstring\<close>) is the sequence of code points of a JavaScript string; an unpaired
  surrogate stands for itself. \<^verbatim>\<open>TextEncoder.encode\<close> writes the UTF-8 form of each code
  point, and U+FFFD for what is not a Unicode scalar value.
\<close>

definition is_scalar :: "nat \<Rightarrow> bool" where
  "is_scalar c = (c < 0xD800 \<or> (0xDFFF < c \<and> c < 0x110000))"

definition utf8_cp :: "nat \<Rightarrow> bytes" where
  "utf8_cp c0 =
     (let c = (if is_scalar c0 then c0 else 0xFFFD) in
      if c < 0x80 then [c]
      else if c < 0x800 then [0xC0 + c div 64, 0x80 + c mod 64]
      else if c < 0x10000 then [0xE0 + c div 4096, 0x80 + (c div 64) mod 64, 0x80 + c mod 64]
      else [0xF0 + c div 262144, 0x80 + (c div 4096) mod 64, 0x80 + (c div 64) mod 64,
            0x80 + c mod 64])"

definition utf8_encode :: "jstring \<Rightarrow> bytes" where
  "utf8_encode s = concat (map utf8_cp s)"

text \<open>
  \<^verbatim>\<open>new TextDecoder('utf-8', { fatal: false })\<close>: the decoder of the Encoding Standard. Its
  state is the code point built so far, the number of continuation bytes still needed and
  the bounds of the next byte. A byte that does not fit yields U+FFFD and, when it was
  read as a continuation byte, is read again as a first byte.
\<close>

function utf8_dec :: "nat \<Rightarrow> nat \<Rightarrow> nat \<Rightarrow> nat \<Rightarrow> bytes \<Rightarrow> nat list" where
  "utf8_dec cp needed lo hi [] = (if needed \<noteq> 0 then [0xFFFD] else [])"
| "utf8_dec cp needed lo hi (b # bs) =
     (if needed = 0 then
        (if b \<le> 0x7F then b # utf8_dec 0 0 0x80 0xBF bs
         else if 0xC2 \<le> b \<and> b \<le> 0xDF then utf8_dec (b mod 32) 1 0x80 0xBF bs
         else if 0xE0 \<le> b \<and> b \<le> 0xEF then
           utf8_dec (b mod 16) 2 (if b = 0xE0 then 0xA0 else 0x80) (if b = 0xED then 0x9F else 0xBF) bs
         else if 0xF0 \<le> b \<and> b \<le> 0xF4 then
           utf8_dec (b mod 8) 3 (if b = 0xF0 then 0x90 else 0x80) (if b = 0xF4 then 0x8F else 0xBF) bs
         else 0xFFFD # utf8_dec 0 0 0x80 0xBF bs)
      else if b < lo \<or> hi < b then 0xFFFD # utf8_dec 0 0 0x80 0xBF (b # bs)
      else if needed = 1 then (cp * 64 + b mod 64) # utf8_dec 0 0 0x80 0xBF bs
      else utf8_dec (cp * 64 + b mod 64) (needed - 1) 0x80 0xBF bs)"
  by pat_completeness auto
termination
  by (relation "measure (\<lambda>(cp, needed, lo, hi, bs). 2 * length bs + (if needed = 0 then 0 else 1))")
     auto

text \<open>A byte order mark at the start of the input is dropped (\<^verbatim>\<open>ignoreBOM\<close> is off).\<close>

definition utf8_decode :: "bytes \<Rightarrow> jstring" where
  "utf8_decode bs =
     utf8_dec 0 0 0x80 0xBF (if take 3 bs = [0xEF, 0xBB, 0xBF] then drop 3 bs else bs)"

section \<open>Encoding\<close>

text \<open>
  \<^verbatim>\<open>getStats\<close>: the adjacent pairs of \<open>ids\<close> with their counts, in the order of their first
  occurrence (the iteration order of the \<^verbatim>\<open>Map\<close>). The working sequence holds integers
  only: bytes, and merge ids that passed the test \<^verbatim>\<open>idx < minIdx\<close>.
\<close>

fun getStats_loop :: "int list \<Rightarrow> ((int \<times> int) \<times> nat) list \<Rightarrow> ((int \<times> int) \<times> nat) list" where
  "getStats_loop (a # b # rest) counts =
     getStats_loop (b # rest)
       (AList.update (a, b) ((case map_of counts (a, b) of None \<Rightarrow> 0 | Some c \<Rightarrow> c) + 1) counts)"
| "getStats_loop _ counts = counts"

definition getStats :: "int list \<Rightarrow> ((int \<times> int) \<times> nat) list" where
  "getStats ids = getStats_loop ids []"

text \<open>
  The loop over \<open>stats\<close> that looks for the pair with the lowest merge index. Its state
  \<^verbatim>\<open>(bestPair, minIdx)\<close> starts as \<^verbatim>\<open>(null, Infinity)\<close>, which is \<open>None\<close> here, and is
  afterwards a pair with its index. An index that is \<^verbatim>\<open>NaN\<close> is below nothing.
\<close>

fun select_best ::
  "(pairKey \<times> number) list \<Rightarrow> ((int \<times> int) \<times> nat) list \<Rightarrow> ((int \<times> int) \<times> int) option
   \<Rightarrow> ((int \<times> int) \<times> int) option" where
  "select_best m [] best = best"
| "select_best m ((pair, count) # stats) best =
     (case map_of m (Num (fst pair), Num (snd pair)) of
        None \<Rightarrow> select_best m stats best
      | Some NaN \<Rightarrow> select_best m stats best
      | Some (Num idx) \<Rightarrow>
          if (case best of None \<Rightarrow> True | Some (bestPair, minIdx) \<Rightarrow> idx < minIdx)
          then select_best m stats (Some (pair, idx))
          else select_best m stats best)"

text \<open>\<^verbatim>\<open>merge\<close>: one pass over \<open>ids\<close> by index.\<close>

function merge_loop :: "int list \<Rightarrow> int \<times> int \<Rightarrow> int \<Rightarrow> nat \<Rightarrow> int list \<Rightarrow> int list" where
  "merge_loop ids pair idx i newIds =
     (if i < length ids then
        (if int i < int (length ids) - 1 \<and> ids ! i = fst pair \<and> ids ! (i + 1) = snd pair
         then merge_loop ids pair idx (i + 2) (newIds @ [idx])
         else merge_loop ids pair idx (i + 1) (newIds @ [ids ! i]))
      else newIds)"
  by pat_completeness auto
termination
  by (relation "measure (\<lambda>(ids, pair, idx, i, newIds). length ids - i)") auto

declare merge_loop.simps [simp del]

definition merge :: "int list \<Rightarrow> int \<times> int \<Rightarrow> int \<Rightarrow> int list" where
  "merge ids pair idx = merge_loop ids pair idx 0 []"

text \<open>
  The pass of \<^verbatim>\<open>merge\<close> as the specification words it: on a match emit the merged id
  and advance by two, otherwise emit the id and advance by one.
\<close>

fun merge_spec :: "int list \<Rightarrow> int \<times> int \<Rightarrow> int \<Rightarrow> int list" where
  "merge_spec (a # b # rest) pair idx =
     (if a = fst pair \<and> b = snd pair then idx # merge_spec rest pair idx
      else a # merge_spec (b # rest) pair idx)"
| "merge_spec ids pair idx = ids"

lemma merge_loop_spec:
  "i \<le> length ids \<Longrightarrow> merge_loop ids pair idx i newIds = newIds @ merge_spec (drop i ids) pair idx"
proof (induction ids pair idx i newIds rule: merge_loop.induct)
  case (1 ids pair idx i newIds)
  consider (finished) "\<not> i < length ids" | (last) "Suc i = length ids" | (more) "Suc i < length ids"
    by linarith
  then show ?case
  proof cases
    case finished
    with "1.prems" show ?thesis by (subst merge_loop.simps) auto
  next
    case last
    then have inside: "i < length ids" by simp
    have nomatch: "\<not> (int i < int (length ids) - 1 \<and> ids ! i = fst pair \<and> ids ! (i + 1) = snd pair)"
      using last by simp
    have d: "drop i ids = [ids ! i]"
      using last by (metis Cons_nth_drop_Suc drop_all inside order_refl)
    have "merge_loop ids pair idx i newIds = merge_loop ids pair idx (i + 1) (newIds @ [ids ! i])"
      using inside nomatch by (subst merge_loop.simps) auto
    also have "\<dots> = (newIds @ [ids ! i]) @ merge_spec (drop (i + 1) ids) pair idx"
      using "1.IH"(2) [OF inside nomatch] last by simp
    also have "\<dots> = newIds @ merge_spec (drop i ids) pair idx"
      using last by (simp add: d)
    finally show ?thesis .
  next
    case more
    then have inside: "i < length ids" by simp
    have d: "drop i ids = ids ! i # ids ! Suc i # drop (Suc (Suc i)) ids"
      using more inside by (simp add: Cons_nth_drop_Suc)
    have d2: "drop (Suc i) ids = ids ! Suc i # drop (Suc (Suc i)) ids"
      using more by (simp add: Cons_nth_drop_Suc)
    show ?thesis
    proof (cases "ids ! i = fst pair \<and> ids ! Suc i = snd pair")
      case True
      then have m: "int i < int (length ids) - 1 \<and> ids ! i = fst pair \<and> ids ! (i + 1) = snd pair"
        using more by simp
      have "merge_loop ids pair idx i newIds = merge_loop ids pair idx (i + 2) (newIds @ [idx])"
        using inside m by (subst merge_loop.simps) auto
      also have "\<dots> = (newIds @ [idx]) @ merge_spec (drop (i + 2) ids) pair idx"
        using "1.IH"(1) [OF inside m] more by simp
      also have "\<dots> = newIds @ merge_spec (drop i ids) pair idx"
        using True by (simp add: d)
      finally show ?thesis .
    next
      case False
      then have nomatch: "\<not> (int i < int (length ids) - 1 \<and> ids ! i = fst pair \<and> ids ! (i + 1) = snd pair)"
        by simp
      have "merge_loop ids pair idx i newIds = merge_loop ids pair idx (i + 1) (newIds @ [ids ! i])"
        using inside nomatch by (subst merge_loop.simps) auto
      also have "\<dots> = (newIds @ [ids ! i]) @ merge_spec (drop (i + 1) ids) pair idx"
        using "1.IH"(2) [OF inside nomatch] more by simp
      also have "\<dots> = newIds @ merge_spec (drop i ids) pair idx"
        using False by (auto simp add: d d2)
      finally show ?thesis .
    qed
  qed
qed

lemma merge_eq_spec: "merge ids pair idx = merge_spec ids pair idx"
  by (simp add: merge_def merge_loop_spec)

lemma getStats_loop_keys:
  "fst ` set (getStats_loop ids counts) = fst ` set counts \<union> set (zip ids (tl ids))"
  by (induction ids counts rule: getStats_loop.induct) (auto simp: dom_update)

lemma getStats_keys: "fst ` set (getStats ids) = set (zip ids (tl ids))"
  by (simp add: getStats_def getStats_loop_keys)

definition rank :: "(pairKey \<times> number) list \<Rightarrow> int \<times> int \<Rightarrow> int option" where
  "rank m p = (case map_of m (Num (fst p), Num (snd p)) of Some (Num idx) \<Rightarrow> Some idx | _ \<Rightarrow> None)"

lemma select_best_None:
  "select_best m stats best = None \<longleftrightarrow> best = None \<and> (\<forall>p \<in> fst ` set stats. rank m p = None)"
  by (induction m stats best rule: select_best.induct)
     (auto simp: rank_def split: option.splits number.splits)

lemma select_best_Some:
  "select_best m stats best = Some (p, idx) \<Longrightarrow>
     best = Some (p, idx) \<or> (p \<in> fst ` set stats \<and> rank m p = Some idx)"
  by (induction m stats best rule: select_best.induct)
     (auto simp: rank_def split: option.splits number.splits if_splits)



lemma length_merge_spec_le: "length (merge_spec ids p idx) \<le> length ids"
  by (induction ids p idx rule: merge_spec.induct) auto

lemma length_merge_spec_less:
  "p \<in> set (zip ids (tl ids)) \<Longrightarrow> length (merge_spec ids p idx) < length ids"
proof (induction ids p idx rule: merge_spec.induct)
  case (1 a b rest pair idx)
  show ?case
  proof (cases "a = fst pair \<and> b = snd pair")
    case True
    then show ?thesis using length_merge_spec_le [of rest pair idx] by simp
  next
    case False
    with "1.prems" have "pair \<in> set (zip (b # rest) (tl (b # rest)))"
      by (cases pair) auto
    with "1.IH"(2) False show ?thesis by auto
  qed
qed simp_all

function bpe_loop :: "(pairKey \<times> number) list \<Rightarrow> int list \<Rightarrow> int list" where
  "bpe_loop m ids =
     (if 2 \<le> length ids then
        (case select_best m (getStats ids) None of
           None \<Rightarrow> ids
         | Some (bestPair, minIdx) \<Rightarrow> bpe_loop m (merge ids bestPair minIdx))
      else ids)"
  by pat_completeness auto
termination
proof (relation "measure (\<lambda>(m, ids). length ids)")
  show "wf (measure (\<lambda>(m :: (pairKey \<times> number) list, ids :: int list). length ids))" by simp
next
  fix m :: "(pairKey \<times> number) list" and ids :: "int list" and x2 bestPair minIdx
  assume "2 \<le> length ids" and "select_best m (getStats ids) None = Some x2" and "(bestPair, minIdx) = x2"
  then have "bestPair \<in> fst ` set (getStats ids)"
    using select_best_Some [of m "getStats ids" None bestPair minIdx] by auto
  then have "length (merge_spec ids bestPair minIdx) < length ids"
    by (simp add: getStats_keys length_merge_spec_less)
  then show "((m, merge ids bestPair minIdx), (m, ids)) \<in> measure (\<lambda>(m, ids). length ids)"
    by (simp add: merge_eq_spec)
qed

declare bpe_loop.simps [simp del]

type_synonym heap = "int list list"

definition encode_ids :: "tokenizer \<Rightarrow> jstring \<Rightarrow> int list" where
  "encode_ids t txt = bpe_loop (merges t) (map int (utf8_encode txt))"

definition encode :: "tokenizer \<Rightarrow> heap \<Rightarrow> jstring \<Rightarrow> addr \<times> tokenizer \<times> heap" where
  "encode t h txt =
     (case cache t txt of
        Some r \<Rightarrow> (r, t, h)
      | None \<Rightarrow>
          (let ids = encode_ids t txt; r = length h
           in (r, t\<lparr>cache := (cache t)(txt \<mapsto> r)\<rparr>, h @ [ids])))"

fun collect :: "(number \<rightharpoonup> bytes) \<Rightarrow> number list \<Rightarrow> bytes list" where
  "collect v [] = []"
| "collect v (i # ids) = (case v i of Some b \<Rightarrow> b # collect v ids | None \<Rightarrow> collect v ids)"

definition decode :: "tokenizer \<Rightarrow> number list \<Rightarrow> jstring" where
  "decode t ids = utf8_decode (concat (collect (vocab t) ids))"

section \<open>Evaluation and the concrete scenarios\<close>

lemma fold_vocab_apply:
  "fold (\<lambda>i v. v(Num (int i) \<mapsto> [i])) [0..<n] Map.empty k =
     (case k of Num i \<Rightarrow> if 0 \<le> i \<and> i < int n then Some [nat i] else None | NaN \<Rightarrow> None)"
  by (induction n) (auto split: number.splits)

lemma init_vocab_apply:
  "init_vocab k = (case k of Num i \<Rightarrow> if 0 \<le> i \<and> i < 256 then Some [nat i] else None | NaN \<Rightarrow> None)"
  unfolding init_vocab_def by (cases k) (simp_all add: fold_vocab_apply)

lemmas load_eval = load_def load_try_def load_line_def new_tokenizer_def parseInt_def is_ws_def
  digit_val_def init_vocab_apply

lemmas encode_eval = encode_def encode_ids_def utf8_encode_def utf8_cp_def is_scalar_def
  bpe_loop.simps getStats_def merge_def merge_loop.simps Let_def

lemmas decode_eval = decode_def utf8_decode_def

text \<open>
  C5 (concrete scenario). With the single rule \<open>97 98 256\<close> loaded into a fresh tokenizer,
  \<^verbatim>\<open>encode("ab")\<close> is \<open>[256]\<close>, \<^verbatim>\<open>encode("ba")\<close> is \<open>[98, 97]\<close> and \<^verbatim>\<open>decode([256])\<close> is
  \<^verbatim>\<open>"ab"\<close>.
\<close>

theorem scenario_ab_rule:
  "(let t = snd (load (Body ''97 98 256'') new_tokenizer);
        (r1, t1, h1) = encode t [] (map of_char ''ab'');
        (r2, t2, h2) = encode t1 h1 (map of_char ''ba'')
    in h1 ! r1 = [256] \<and> h2 ! r2 = [98, 97] \<and> decode t2 [Num 256] = map of_char ''ab'')"
  by (simp add: load_eval encode_eval decode_eval)

text \<open>
  C6 (malformed lines). A line of three tokens whose last token has no digit is not
  skipped: \<open>97 98 x\<close> registers the pair \<open>(97, 98)\<close> with the value \<^verbatim>\<open>NaN\<close>, adds a
  vocabulary entry under the key \<^verbatim>\<open>NaN\<close> and counts in \<open>vocabSize\<close>; after a valid rule for
  the same pair it replaces that rule, so that \<^verbatim>\<open>encode("ab")\<close> no longer merges.
\<close>

theorem unparsable_line_is_registered:
  "(let t = snd (load (Body ''97 98 x'') new_tokenizer)
    in merges t = [((Num 97, Num 98), NaN)] \<and> vocab t NaN = Some [97, 98] \<and> vocabSize t = 257)
   \<and> (let t = snd (load (Body ''a b c'') new_tokenizer)
      in merges t = [((NaN, NaN), NaN)] \<and> vocabSize t = 257)
   \<and> (let t = snd (load (Body (''97 98 256'' @ [CHR 0x0A] @ ''97 98 x'')) new_tokenizer)
      in merges t = [((Num 97, Num 98), NaN)] \<and> encode_ids t (map of_char ''ab'') = [97, 98])"
  by (simp add: load_eval encode_eval)

lemma wrong_token_count_skipped:
  "length (split_on CHR '' '' line) \<noteq> 3 \<Longrightarrow> load_line line t = t"
  by (simp add: load_line_def)

section \<open>Failure of the load\<close>

text \<open>The resource is unreachable or unreadable: every outcome of the fetch but a body.\<close>

definition fetch_failed :: "fetch_result \<Rightarrow> bool" where
  "fetch_failed r = (case r of Body txt \<Rightarrow> False | _ \<Rightarrow> True)"

lemma rank_empty: "rank [] p = None"
  by (simp add: rank_def)

lemma bpe_loop_no_merges: "bpe_loop [] ids = ids"
  by (subst bpe_loop.simps) (simp add: select_best_None [THEN iffD2] rank_empty)

lemma utf8_cp_bytes: "b \<in> set (utf8_cp c) \<Longrightarrow> b < 256"
  by (auto simp: utf8_cp_def is_scalar_def Let_def split: if_splits)

lemma utf8_encode_bytes: "b \<in> set (utf8_encode s) \<Longrightarrow> b < 256"
  by (auto simp: utf8_encode_def dest: utf8_cp_bytes)

lemma collect_init_vocab:
  "\<forall>b \<in> set bs. b < 256 \<Longrightarrow> concat (collect init_vocab (map (Num \<circ> int) bs)) = bs"
  by (induction bs) (simp_all add: init_vocab_apply)

lemma load_failed: "fetch_failed r \<Longrightarrow> load r t = (Inr (), t)"
  by (cases r) (simp_all add: fetch_failed_def load_def load_try_def)

text \<open>
  C3, as stated, fails: when the request is rejected, \<^verbatim>\<open>load\<close> does not surface an error;
  its \<^verbatim>\<open>catch\<close> clause logs and the call returns normally.
\<close>

theorem load_failure_not_surfaced: "\<not> isl (fst (load FetchRejected new_tokenizer))"
  by (simp add: load_def load_try_def)

text \<open>
  C3 (load failure), amended. If the resource is unreachable or unreadable, \<^verbatim>\<open>load\<close>
  returns normally and leaves the tokenizer as it was; a fresh tokenizer therefore keeps
  exactly the 256 single-byte entries, \<open>vocabSize\<close> 256 and an empty merge table, and
  \<^verbatim>\<open>encode\<close> then yields the UTF-8 bytes of the text, which \<^verbatim>\<open>decode\<close> turns back into
  bytes and decodes as UTF-8.
\<close>

theorem load_failure_keeps_state:
  assumes "fetch_failed r"
  shows "load r t = (Inr (), t)
    \<and> (vocabSize new_tokenizer = 256 \<and> merges new_tokenizer = []
       \<and> (\<forall>k. vocab new_tokenizer k =
            (case k of Num i \<Rightarrow> if 0 \<le> i \<and> i < 256 then Some [nat i] else None | NaN \<Rightarrow> None)))
    \<and> (let (a, t', h') = encode (snd (load r new_tokenizer)) h txt
       in h' ! a = map int (utf8_encode txt)
          \<and> decode t' (map Num (h' ! a)) = utf8_decode (utf8_encode txt))"
proof -
  have 1: "load r t = (Inr (), t)" for t
    using assms by (rule load_failed)
  have 2: "vocabSize new_tokenizer = 256 \<and> merges new_tokenizer = []
       \<and> (\<forall>k. vocab new_tokenizer k =
            (case k of Num i \<Rightarrow> if 0 \<le> i \<and> i < 256 then Some [nat i] else None | NaN \<Rightarrow> None))"
    by (simp add: new_tokenizer_def init_vocab_apply)
  have 3: "encode new_tokenizer h txt =
      (length h, new_tokenizer\<lparr>cache := [txt \<mapsto> length h]\<rparr>, h @ [map int (utf8_encode txt)])"
    by (simp add: encode_def encode_ids_def new_tokenizer_def bpe_loop_no_merges Let_def)
  have 4: "decode (new_tokenizer\<lparr>cache := c\<rparr>) (map (Num \<circ> int) (utf8_encode txt)) =
      utf8_decode (utf8_encode txt)" for c
    by (simp add: decode_def new_tokenizer_def collect_init_vocab utf8_encode_bytes)
  show ?thesis
    by (simp add: 1 2 3 4)
qed

theorem load_failure_keeps_state_witness:
  "fetch_failed NotOk \<and> load NotOk new_tokenizer = (Inr (), new_tokenizer)
   \<and> (let (a, t', h') = encode (snd (load NotOk new_tokenizer)) [] [104, 105]
      in h' ! a = [104, 105] \<and> decode t' (map Num (h' ! a)) = [104, 105])"
proof -
  have f: "fetch_failed NotOk" by (simp add: fetch_failed_def)
  have e: "utf8_encode [104, 105] = [104, 105]" "utf8_decode [104, 105] = [104, 105]"
    by (simp_all add: utf8_encode_def utf8_cp_def is_scalar_def utf8_decode_def)
  show ?thesis
    using load_failure_keeps_state [OF f, of new_tokenizer "[]" "[104, 105]"] f
    by (auto simp: e split: prod.splits)
qed

section \<open>The vocabulary under load\<close>

text \<open>
  A processed line is one that passes the two tests of the loop; it contributes the triple
  of its three \<^verbatim>\<open>parseInt\<close> results. \<open>add_rule\<close> is what the loop body does with the triple,
  and \<open>fresh_rules\<close> says that every rule names two ids that the vocabulary has when the
  rule is processed, and a new id that it does not have yet.
\<close>

type_synonym rule = "number \<times> number \<times> number"

definition rule_of_line :: "string \<Rightarrow> rule option" where
  "rule_of_line line =
     (if list_all is_ws line then None
      else let parts = split_on CHR '' '' line in
        if length parts \<noteq> 3 then None
        else Some (parseInt (parts ! 0), parseInt (parts ! 1), parseInt (parts ! 2)))"

fun add_rule :: "rule \<Rightarrow> tokenizer \<Rightarrow> tokenizer" where
  "add_rule (p0, p1, idx) t =
     (let t1 = t\<lparr>merges := AList.update (p0, p1) idx (merges t)\<rparr>
      in (case (vocab t1 p0, vocab t1 p1) of
            (Some v0, Some v1) \<Rightarrow> t1\<lparr>vocab := (vocab t1)(idx \<mapsto> v0 @ v1)\<rparr>
          | _ \<Rightarrow> t1))"

fun fresh_rules :: "number set \<Rightarrow> rule list \<Rightarrow> bool" where
  "fresh_rules V [] = True"
| "fresh_rules V ((p0, p1, idx) # rs) = (p0 \<in> V \<and> p1 \<in> V \<and> idx \<notin> V \<and> fresh_rules (insert idx V) rs)"

definition new_id :: "rule \<Rightarrow> number" where
  "new_id r = snd (snd r)"

lemma load_line_rule:
  "load_line line t = (case rule_of_line line of None \<Rightarrow> t | Some r \<Rightarrow> add_rule r t)"
  by (simp add: load_line_def rule_of_line_def Let_def)

lemma fold_load_line:
  "fold load_line lines t = fold add_rule (List.map_filter rule_of_line lines) t"
  by (induction lines arbitrary: t) (simp_all add: load_line_rule List.map_filter_simps split: option.splits)

lemma fold_add_rule_vocab:
  "fresh_rules (dom (vocab t)) rs \<Longrightarrow>
     (\<forall>k \<in> dom (vocab t). vocab (fold add_rule rs t) k = vocab t k)
     \<and> dom (vocab (fold add_rule rs t)) = dom (vocab t) \<union> new_id ` set rs
     \<and> distinct (map new_id rs)
     \<and> new_id ` set rs \<inter> dom (vocab t) = {}
     \<and> (\<forall>(p0, p1, idx) \<in> set rs. \<exists>v0 v1.
           vocab (fold add_rule rs t) p0 = Some v0 \<and> vocab (fold add_rule rs t) p1 = Some v1
           \<and> vocab (fold add_rule rs t) idx = Some (v0 @ v1))"
proof (induction rs arbitrary: t)
  case Nil
  then show ?case by simp
next
  case (Cons r rs)
  obtain p0 p1 idx where r: "r = (p0, p1, idx)" by (cases r) auto
  from Cons.prems r obtain v0 v1 where v: "vocab t p0 = Some v0" "vocab t p1 = Some v1"
    and fresh: "vocab t idx = None" and rest: "fresh_rules (insert idx (dom (vocab t))) rs"
    by auto
  define t' where "t' = add_rule r t"
  have vt': "vocab t' = (vocab t)(idx \<mapsto> v0 @ v1)"
    by (simp add: t'_def r v)
  then have dom': "dom (vocab t') = insert idx (dom (vocab t))" by simp
  from Cons.IH [of t'] rest dom'
  have IH: "(\<forall>k \<in> dom (vocab t'). vocab (fold add_rule rs t') k = vocab t' k)"
    "dom (vocab (fold add_rule rs t')) = dom (vocab t') \<union> new_id ` set rs"
    "distinct (map new_id rs)"
    "new_id ` set rs \<inter> dom (vocab t') = {}"
    "(\<forall>(p0, p1, idx) \<in> set rs. \<exists>v0 v1.
           vocab (fold add_rule rs t') p0 = Some v0 \<and> vocab (fold add_rule rs t') p1 = Some v1
           \<and> vocab (fold add_rule rs t') idx = Some (v0 @ v1))"
    by simp_all
  have f: "fold add_rule (r # rs) t = fold add_rule rs t'" by (simp add: t'_def)
  have p0: "p0 \<noteq> idx" and p1: "p1 \<noteq> idx" using v fresh by auto
  have a: "\<forall>k \<in> dom (vocab t). vocab (fold add_rule (r # rs) t) k = vocab t k"
  proof
    fix k assume k: "k \<in> dom (vocab t)"
    then have "k \<noteq> idx" using fresh by auto
    moreover have "k \<in> dom (vocab t')" using k dom' by simp
    ultimately show "vocab (fold add_rule (r # rs) t) k = vocab t k"
      unfolding f using IH(1) by (simp add: vt')
  qed
  have b: "dom (vocab (fold add_rule (r # rs) t)) = dom (vocab t) \<union> new_id ` set (r # rs)"
    unfolding f using IH(2) dom' by (auto simp: r new_id_def)
  have c: "distinct (map new_id (r # rs))"
    using IH(3) IH(4) dom' by (auto simp: r new_id_def)
  have d: "new_id ` set (r # rs) \<inter> dom (vocab t) = {}"
    using IH(4) dom' fresh by (auto simp: r new_id_def)
  have e: "\<forall>(q0, q1, j) \<in> set (r # rs). \<exists>v0 v1.
           vocab (fold add_rule (r # rs) t) q0 = Some v0 \<and> vocab (fold add_rule (r # rs) t) q1 = Some v1
           \<and> vocab (fold add_rule (r # rs) t) j = Some (v0 @ v1)"
  proof -
    have "vocab (fold add_rule rs t') p0 = Some v0" "vocab (fold add_rule rs t') p1 = Some v1"
      "vocab (fold add_rule rs t') idx = Some (v0 @ v1)"
      using IH(1) v p0 p1 by (auto simp: vt' dom' domI)
    then show ?thesis unfolding f using IH(5) by (auto simp: r)
  qed
  from a b c d e show ?case by blast
qed


text \<open>
  C10, as stated, fails: \<^verbatim>\<open>load\<close> writes the vocabulary entry of whatever id the rule
  names, so the rule \<open>97 98 65\<close> replaces the single-byte entry of id 65.
\<close>

theorem overwritten_byte_entry:
  "vocab (snd (load (Body ''97 98 65'') new_tokenizer)) (Num 65) \<noteq> Some [65]"
  by (simp add: load_eval Let_def)

text \<open>
  C10 (vocabulary invariant), amended. For a load whose processed rules are fresh in the
  sense above: no entry that was set is changed (so ids 0 to 255 keep their single-byte
  entries), the rules introduce pairwise different ids that were not in the vocabulary,
  the vocabulary grows by exactly these ids, and the entry of each new id is the entry of
  the first constituent followed by the entry of the second.
\<close>

theorem load_extends_vocab:
  assumes "fresh_rules (dom (vocab t)) (List.map_filter rule_of_line (split_on CHR 0x0A txt))"
  shows "(let rs = List.map_filter rule_of_line (split_on CHR 0x0A txt);
              t' = snd (load (Body txt) t)
          in (\<forall>k \<in> dom (vocab t). vocab t' k = vocab t k)
             \<and> ((\<forall>i < 256. vocab t (Num (int i)) = Some [i])
                  \<longrightarrow> (\<forall>i < 256. vocab t' (Num (int i)) = Some [i]))
             \<and> dom (vocab t') = dom (vocab t) \<union> new_id ` set rs
             \<and> distinct (map new_id rs)
             \<and> new_id ` set rs \<inter> dom (vocab t) = {}
             \<and> (\<forall>(p0, p1, idx) \<in> set rs. \<exists>v0 v1.
                   vocab t' p0 = Some v0 \<and> vocab t' p1 = Some v1 \<and> vocab t' idx = Some (v0 @ v1)))"
proof -
  define rs where "rs = List.map_filter rule_of_line (split_on CHR 0x0A txt)"
  have v: "vocab (snd (load (Body txt) t)) = vocab (fold add_rule rs t)"
    by (simp add: load_def load_try_def fold_load_line rs_def Let_def)
  have keep: "\<forall>k \<in> dom (vocab t). vocab (fold add_rule rs t) k = vocab t k"
    using fold_add_rule_vocab [of t rs] assms by (simp add: rs_def)
  have bytes: "(\<forall>i < 256. vocab t (Num (int i)) = Some [i])
      \<longrightarrow> (\<forall>i < 256. vocab (fold add_rule rs t) (Num (int i)) = Some [i])"
    using keep by (auto simp: domI)
  show ?thesis
    unfolding Let_def v rs_def [symmetric]
    using fold_add_rule_vocab [of t rs] assms bytes by (simp add: rs_def)
qed

theorem load_extends_vocab_witness:
  "fresh_rules (dom (vocab new_tokenizer))
     (List.map_filter rule_of_line (split_on CHR 0x0A (''97 98 256'' @ [CHR 0x0A] @ ''256 99 257'')))
   \<and> (let t' = snd (load (Body (''97 98 256'' @ [CHR 0x0A] @ ''256 99 257'')) new_tokenizer)
      in vocab t' (Num 97) = Some [97] \<and> vocab t' (Num 256) = Some [97, 98]
         \<and> vocab t' (Num 257) = Some [97, 98, 99]
         \<and> dom (vocab t') = dom (vocab new_tokenizer) \<union> {Num 256, Num 257})"
proof -
  have rs: "List.map_filter rule_of_line (split_on CHR 0x0A (''97 98 256'' @ [CHR 0x0A] @ ''256 99 257''))
      = [(Num 97, Num 98, Num 256), (Num 256, Num 99, Num 257)]"
    by (simp add: List.map_filter_simps rule_of_line_def parseInt_def is_ws_def digit_val_def)
  have f: "fresh_rules (dom (vocab new_tokenizer))
     (List.map_filter rule_of_line (split_on CHR 0x0A (''97 98 256'' @ [CHR 0x0A] @ ''256 99 257'')))"
    unfolding rs by (simp add: new_tokenizer_def dom_def init_vocab_apply)
  have e: "vocab (snd (load (Body (''97 98 256'' @ [CHR 0x0A] @ ''256 99 257'')) new_tokenizer)) (Num 97) = Some [97]"
    "vocab (snd (load (Body (''97 98 256'' @ [CHR 0x0A] @ ''256 99 257'')) new_tokenizer)) (Num 256) = Some [97, 98]"
    "vocab (snd (load (Body (''97 98 256'' @ [CHR 0x0A] @ ''256 99 257'')) new_tokenizer)) (Num 257) = Some [97, 98, 99]"
    by (simp_all add: load_eval Let_def)
  have d: "dom (vocab (snd (load (Body (''97 98 256'' @ [CHR 0x0A] @ ''256 99 257'')) new_tokenizer)))
      = dom (vocab new_tokenizer) \<union> {Num 256, Num 257}"
    using load_extends_vocab [OF f] unfolding rs Let_def by (auto simp: new_id_def)
  show ?thesis
    unfolding Let_def using f e d by blast
qed

section \<open>UTF-8: decoding what was encoded\<close>

text \<open>
  The decoder on the bytes of one code point, written with the base-64 digits of the code
  point, then the encoder in the same digits.
\<close>

lemma mod64_add128: "d < 64 \<Longrightarrow> (128 + d) mod 64 = (d::nat)"
  using mod_mult_self4 [of 64 2 d] by simp

lemma dec_bytes1: "c < 128 \<Longrightarrow> utf8_dec 0 0 0x80 0xBF (c # rest) = c # utf8_dec 0 0 0x80 0xBF rest"
  by simp

lemma dec_bytes2:
  assumes "2 \<le> q" "q < 32" "d0 < 64"
  shows "utf8_dec 0 0 0x80 0xBF ((192 + q) # (128 + d0) # rest) = (q * 64 + d0) # utf8_dec 0 0 0x80 0xBF rest"
proof -
  have m: "(192 + q) mod 32 = q"
    using mod_mult_self4 [of 32 6 q] assms by simp
  show ?thesis
    using assms by (simp add: m mod64_add128)
qed

lemma dec_bytes3:
  assumes "q < 16" "d1 < 64" "d0 < 64" "q = 0 \<longrightarrow> 32 \<le> d1" "q = 13 \<longrightarrow> d1 < 32"
  shows "utf8_dec 0 0 0x80 0xBF ((224 + q) # (128 + d1) # (128 + d0) # rest)
    = ((q * 64 + d1) * 64 + d0) # utf8_dec 0 0 0x80 0xBF rest"
proof -
  have m: "(224 + q) mod 16 = q"
    using mod_mult_self4 [of 16 14 q] assms by simp
  show ?thesis
    using assms by (auto simp: m mod64_add128)
qed

lemma dec_bytes4:
  assumes "q < 5" "d2 < 64" "d1 < 64" "d0 < 64" "q = 0 \<longrightarrow> 16 \<le> d2" "q = 4 \<longrightarrow> d2 < 16"
  shows "utf8_dec 0 0 0x80 0xBF ((240 + q) # (128 + d2) # (128 + d1) # (128 + d0) # rest)
    = (((q * 64 + d2) * 64 + d1) * 64 + d0) # utf8_dec 0 0 0x80 0xBF rest"
proof -
  have m: "(240 + q) mod 8 = q"
    using mod_mult_self4 [of 8 30 q] assms by simp
  show ?thesis
    using assms by (auto simp: m mod64_add128)
qed


lemma div4096: "(c::nat) div 4096 = c div 64 div 64"
  by (simp add: div_mult2_eq [symmetric])

lemma div262144: "(c::nat) div 262144 = c div 64 div 64 div 64"
  by (simp add: div_mult2_eq [symmetric])

lemma digits64: "(c::nat) = c div 64 * 64 + c mod 64" "c mod 64 < 64"
  by simp_all

lemma utf8_cp_decoded:
  assumes "is_scalar c"
  shows "utf8_dec 0 0 0x80 0xBF (utf8_cp c @ rest) = c # utf8_dec 0 0 0x80 0xBF rest"
proof -
  define d0 where "d0 = c mod 64"
  define q1 where "q1 = c div 64"
  define d1 where "d1 = q1 mod 64"
  define q2 where "q2 = q1 div 64"
  define d2 where "d2 = q2 mod 64"
  define q3 where "q3 = q2 div 64"
  have c: "c = q1 * 64 + d0" and d0: "d0 < 64"
    unfolding q1_def d0_def by simp_all
  have q1: "q1 = q2 * 64 + d1" and d1: "d1 < 64"
    unfolding q2_def d1_def by simp_all
  have q2: "q2 = q3 * 64 + d2" and d2: "d2 < 64"
    unfolding q3_def d2_def by simp_all
  have sc: "c < 0xD800 \<or> (0xDFFF < c \<and> c < 0x110000)"
    using assms by (simp add: is_scalar_def)
  consider (one) "c < 0x80" | (two) "0x80 \<le> c" "c < 0x800" | (three) "0x800 \<le> c" "c < 0x10000"
    | (four) "0x10000 \<le> c"
    by linarith
  then show ?thesis
  proof cases
    case one
    then show ?thesis using assms by (simp add: utf8_cp_def)
  next
    case two
    have u: "utf8_cp c = [192 + q1, 128 + d0]"
      using two assms by (simp add: utf8_cp_def q1_def d0_def)
    have "2 \<le> q1" "q1 < 32" using two c d0 by linarith+
    then show ?thesis
      unfolding u using dec_bytes2 [of q1 d0 rest] d0 c by simp
  next
    case three
    have u: "utf8_cp c = [224 + q2, 128 + d1, 128 + d0]"
      using three assms by (simp add: utf8_cp_def q2_def q1_def d1_def d0_def div4096)
    have "q2 < 16" using three c d0 q1 d1 by linarith
    moreover have "q2 = 0 \<longrightarrow> 32 \<le> d1" using three c d0 q1 d1 by auto
    moreover have "q2 = 13 \<longrightarrow> d1 < 32" using three sc c d0 q1 d1 by auto
    ultimately show ?thesis
      unfolding u using dec_bytes3 [of q2 d1 d0 rest] d0 d1 c q1 by simp
  next
    case four
    have u: "utf8_cp c = [240 + q3, 128 + d2, 128 + d1, 128 + d0]"
      using four assms
      by (simp add: utf8_cp_def q3_def q2_def q1_def d2_def d1_def d0_def div4096 div262144)
    have "q3 < 5" using four sc c d0 q1 d1 q2 d2 by linarith
    moreover have "q3 = 0 \<longrightarrow> 16 \<le> d2" using four c d0 q1 d1 q2 d2 by auto
    moreover have "q3 = 4 \<longrightarrow> d2 < 16" using four sc c d0 q1 d1 q2 d2 by auto
    ultimately show ?thesis
      unfolding u using dec_bytes4 [of q3 d2 d1 d0 rest] d0 d1 d2 c q1 q2 by simp
  qed
qed

lemma utf8_encode_decoded:
  "\<forall>c \<in> set s. is_scalar c \<Longrightarrow> utf8_dec 0 0 0x80 0xBF (utf8_encode s) = s"
  by (induction s) (simp_all add: utf8_encode_def utf8_cp_decoded)

lemma utf8_cp_no_bom:
  assumes "is_scalar c" "c \<noteq> 0xFEFF"
  shows "take 3 (utf8_cp c @ rest) \<noteq> [0xEF, 0xBB, 0xBF]"
proof -
  define d0 where "d0 = c mod 64"
  define q1 where "q1 = c div 64"
  define d1 where "d1 = q1 mod 64"
  define q2 where "q2 = q1 div 64"
  have c: "c = q1 * 64 + d0" and d0: "d0 < 64"
    unfolding q1_def d0_def by simp_all
  have q1: "q1 = q2 * 64 + d1" and d1: "d1 < 64"
    unfolding q2_def d1_def by simp_all
  consider (one) "c < 0x80" | (two) "0x80 \<le> c" "c < 0x800" | (three) "0x800 \<le> c" "c < 0x10000"
    | (four) "0x10000 \<le> c"
    by linarith
  then show ?thesis
  proof cases
    case one
    then show ?thesis using assms by (simp add: utf8_cp_def)
  next
    case two
    have u: "utf8_cp c = [192 + q1, 128 + d0]"
      using two assms by (simp add: utf8_cp_def q1_def d0_def)
    have "q1 < 32" using two c d0 by linarith
    then show ?thesis unfolding u by simp
  next
    case three
    have u: "utf8_cp c = [224 + q2, 128 + d1, 128 + d0]"
      using three assms by (simp add: utf8_cp_def q2_def q1_def d1_def d0_def div4096)
    have "\<not> (q2 = 15 \<and> d1 = 59 \<and> d0 = 63)" using assms(2) c q1 by auto
    then show ?thesis unfolding u by auto
  next
    case four
    have "utf8_cp c = [240 + c div 262144, 128 + c div 4096 mod 64, 128 + c div 64 mod 64, 128 + c mod 64]"
      using four assms by (simp add: utf8_cp_def)
    then show ?thesis by simp
  qed
qed

lemma utf8_round_trip:
  assumes "\<forall>c \<in> set s. is_scalar c" "s = [] \<or> hd s \<noteq> 0xFEFF"
  shows "utf8_decode (utf8_encode s) = s"
proof (cases s)
  case Nil
  then show ?thesis by (simp add: utf8_decode_def utf8_encode_def)
next
  case (Cons c cs)
  with assms have "is_scalar c" "c \<noteq> 0xFEFF" by auto
  then have "take 3 (utf8_encode s) \<noteq> [0xEF, 0xBB, 0xBF]"
    using utf8_cp_no_bom [of c "utf8_encode cs"] by (simp add: Cons utf8_encode_def)
  then show ?thesis
    using assms(1) by (simp add: utf8_decode_def utf8_encode_decoded)
qed

section \<open>The cache\<close>

text \<open>
  The cache is consistent with the store when every cached reference points to the
  encoding of its text. \<^verbatim>\<open>encode\<close> keeps it so; \<open>encode_all\<close> is a run of earlier calls.
\<close>

definition cache_ok :: "tokenizer \<Rightarrow> heap \<Rightarrow> bool" where
  "cache_ok t h = (\<forall>txt r. cache t txt = Some r \<longrightarrow> r < length h \<and> h ! r = encode_ids t txt)"

fun encode_all :: "tokenizer \<Rightarrow> heap \<Rightarrow> jstring list \<Rightarrow> tokenizer \<times> heap" where
  "encode_all t h [] = (t, h)"
| "encode_all t h (x # xs) = (case encode t h x of (r, t', h') \<Rightarrow> encode_all t' h' xs)"

lemma encode_ids_cache: "encode_ids (t\<lparr>cache := c\<rparr>) txt = encode_ids t txt"
  by (simp add: encode_ids_def)

lemma encode_keeps:
  assumes "cache_ok t h" "encode t h x = (r, t', h')"
  shows "cache_ok t' h'" "merges t' = merges t" "vocab t' = vocab t" "r < length h'"
    "h' ! r = encode_ids t x"
proof -
  show "cache_ok t' h'"
  proof (cases "cache t x")
    case (Some r0)
    with assms show ?thesis by (simp add: encode_def)
  next
    case None
    with assms(2) have t': "t' = t\<lparr>cache := (cache t)(x \<mapsto> length h)\<rparr>"
      and h': "h' = h @ [encode_ids t x]"
      by (auto simp: encode_def Let_def)
    show ?thesis
      unfolding cache_ok_def
    proof (intro allI impI)
      fix tx ra
      assume c: "cache t' tx = Some ra"
      show "ra < length h' \<and> h' ! ra = encode_ids t' tx"
      proof (cases "tx = x")
        case True
        with c show ?thesis by (auto simp: t' h' encode_ids_cache)
      next
        case False
        with c have "cache t tx = Some ra" by (simp add: t')
        with assms(1) have "ra < length h" "h ! ra = encode_ids t tx"
          by (simp_all add: cache_ok_def)
        then show ?thesis by (simp add: t' h' encode_ids_cache nth_append)
      qed
    qed
  qed
  show "merges t' = merges t" "vocab t' = vocab t"
    using assms(2) by (auto simp: encode_def Let_def split: option.splits)
  show "r < length h'" "h' ! r = encode_ids t x"
    using assms by (auto simp: cache_ok_def encode_def Let_def split: option.splits)
qed

lemma encode_all_keeps:
  "cache_ok t h \<Longrightarrow> encode_all t h xs = (t', h') \<Longrightarrow>
     cache_ok t' h' \<and> merges t' = merges t \<and> vocab t' = vocab t"
proof (induction xs arbitrary: t h)
  case Nil
  then show ?case by simp
next
  case (Cons x xs)
  obtain r t1 h1 where e: "encode t h x = (r, t1, h1)" by (cases "encode t h x") auto
  from encode_keeps [OF Cons.prems(1) e] Cons.IH [of t1 h1] Cons.prems(2) e
  show ?case by simp
qed

lemma cache_ok_new: "cache_ok new_tokenizer h"
  by (simp add: cache_ok_def new_tokenizer_def)

text \<open>A second call of \<^verbatim>\<open>encode\<close> on the same text returns the same array.\<close>

lemma encode_twice:
  assumes "cache_ok t h" "encode t h x = (r, t', h')"
  shows "encode t' h' x = (r, t', h')" "h' ! r = encode_ids t x"
proof -
  show "h' ! r = encode_ids t x" using assms by (rule encode_keeps(5))
  show "encode t' h' x = (r, t', h')"
    using assms(2) by (auto simp: encode_def Let_def split: option.splits)
qed

text \<open>
  C9 (byte-only round trip). With no merge rules loaded, after any earlier calls of
  \<^verbatim>\<open>encode\<close>, \<^verbatim>\<open>decode(encode(text))\<close> is \<open>text\<close> for every text of Unicode scalar
  values that does not start with U+FEFF (which the decoder drops as a byte order mark,
  and which is not a printable character).
\<close>

theorem byte_only_round_trip:
  assumes "\<forall>c \<in> set txt. is_scalar c" and "txt = [] \<or> hd txt \<noteq> 0xFEFF"
  shows "(let (t, h) = encode_all new_tokenizer [] earlier;
              (r, t', h') = encode t h txt
          in decode t' (map Num (h' ! r)) = txt)"
proof -
  obtain t h where a: "encode_all new_tokenizer [] earlier = (t, h)"
    by (cases "encode_all new_tokenizer [] earlier") auto
  obtain r t' h' where e: "encode t h txt = (r, t', h')"
    by (cases "encode t h txt") auto
  from encode_all_keeps [OF cache_ok_new a]
  have t: "cache_ok t h" "merges t = []" "vocab t = init_vocab"
    by (simp_all add: new_tokenizer_def)
  from encode_keeps [OF t(1) e] t
  have t': "vocab t' = init_vocab" "h' ! r = map int (utf8_encode txt)"
    by (simp_all add: encode_ids_def bpe_loop_no_merges)
  have "decode t' (map Num (h' ! r)) = utf8_decode (utf8_encode txt)"
    by (simp add: decode_def t' collect_init_vocab utf8_encode_bytes)
  then show ?thesis
    using assms by (simp add: a e utf8_round_trip)
qed

theorem byte_only_round_trip_witness:
  "is_scalar 104 \<and> is_scalar 0xE9 \<and> is_scalar 0x20AC \<and> is_scalar 0x1F600
   \<and> (let (t, h) = encode_all new_tokenizer [] [[104, 0xE9, 0x20AC, 0x1F600], [97]];
          (r, t', h') = encode t h [104, 0xE9, 0x20AC, 0x1F600]
      in decode t' (map Num (h' ! r)) = [104, 0xE9, 0x20AC, 0x1F600])"
proof -
  have s: "is_scalar 104 \<and> is_scalar 0xE9 \<and> is_scalar 0x20AC \<and> is_scalar 0x1F600"
    by (simp add: is_scalar_def)
  then have a: "\<forall>c \<in> set [104, 0xE9, 0x20AC, 0x1F600]. is_scalar c"
    by simp
  have h: "[104, 0xE9, 0x20AC, 0x1F600] = [] \<or> hd [104, 0xE9, 0x20AC, 0x1F600] \<noteq> (0xFEFF :: nat)"
    by simp
  show ?thesis
    using byte_only_round_trip [OF a h, of "[[104, 0xE9, 0x20AC, 0x1F600], [97]]"] s by blast
qed

section \<open>The merge loop\<close>












section \<open>Floating-point numbers\<close>

text \<open>
  The numbers of \<^verbatim>\<open>sample\<close> (\<^verbatim>\<open>frontend/src/services/AstroEngine.ts\<close>) are IEEE 754 values:
  a JavaScript number is a binary64 value, an element of a \<^verbatim>\<open>Float32Array\<close> a binary32
  value. A value is \<^verbatim>\<open>NaN\<close>, \<^verbatim>\<open>-Infinity\<close>, \<^verbatim>\<open>Infinity\<close> or a finite real number. The sign of
  a zero is not represented: \<^verbatim>\<open>sample\<close> divides by \<^verbatim>\<open>Math.max(temperature, 1e-8)\<close> only, which is
  never a zero, and compares with \<^verbatim>\<open><\<close>, \<^verbatim>\<open>>\<close> and \<^verbatim>\<open>===\<close>, which do not see the sign.
\<close>

datatype ieee = NaNv | NegInf | PosInf | Fin real

text \<open>Rounding a real number to the nearest integer, ties to the even one.\<close>

definition rne :: "real \<Rightarrow> int" where
  "rne x = (let f = \<lfloor>x\<rfloor>; d = x - of_int f
            in if d < 1 / 2 then f else if 1 / 2 < d then f + 1 else if even f then f else f + 1)"

text \<open>The exponent of a number other than zero: \<open>2 powi (expo x) \<le> \<bar>x\<bar> < 2 powi (expo x + 1)\<close>.\<close>

definition expo :: "real \<Rightarrow> int" where
  "expo x = \<lfloor>log 2 \<bar>x\<bar>\<rfloor>"

text \<open>
  Rounding to the format with precision \<open>p\<close> and the exponents \<open>emin\<close> to \<open>emax\<close>, to nearest,
  ties to even. The quantum of a number is \<open>2 powi (e - p + 1)\<close>, where \<open>e\<close> is its exponent,
  or \<open>emin\<close> for a subnormal number; the number of quanta is rounded to an integer; a
  result of magnitude \<open>2 powi (emax + 1)\<close> or more is an infinity.
\<close>

definition round_to :: "nat \<Rightarrow> int \<Rightarrow> int \<Rightarrow> real \<Rightarrow> ieee" where
  "round_to p emin emax x =
     (if x = 0 then Fin 0
      else let q = 2 powi (max (expo x) emin - int p + 1);
               y = of_int (rne (x / q)) * q
           in if 2 powi (emax + 1) \<le> \<bar>y\<bar> then (if 0 < x then PosInf else NegInf) else Fin y)"

definition round32 :: "real \<Rightarrow> ieee" where
  "round32 = round_to 24 (- 126) 127"

definition round64 :: "real \<Rightarrow> ieee" where
  "round64 = round_to 53 (- 1022) 1023"

text \<open>The store of a number into a \<^verbatim>\<open>Float32Array\<close>.\<close>

fun to_f32 :: "ieee \<Rightarrow> ieee" where
  "to_f32 (Fin x) = round32 x"
| "to_f32 v = v"

text \<open>
  The operators \<^verbatim>\<open>+\<close>, \<^verbatim>\<open>-\<close>, \<^verbatim>\<open>*\<close>, \<^verbatim>\<open>/\<close> and \<^verbatim>\<open><\<close> on numbers. The result of an
  operation on finite numbers is the exact result rounded to binary64. A quotient by
  zero is written for the zero \<^verbatim>\<open>+0\<close>.
\<close>

fun ieee_neg :: "ieee \<Rightarrow> ieee" where
  "ieee_neg (Fin x) = Fin (- x)"
| "ieee_neg PosInf = NegInf"
| "ieee_neg NegInf = PosInf"
| "ieee_neg NaNv = NaNv"

fun ieee_add :: "ieee \<Rightarrow> ieee \<Rightarrow> ieee" where
  "ieee_add NaNv b = NaNv"
| "ieee_add a NaNv = NaNv"
| "ieee_add (Fin a) (Fin b) = round64 (a + b)"
| "ieee_add PosInf NegInf = NaNv"
| "ieee_add NegInf PosInf = NaNv"
| "ieee_add PosInf b = PosInf"
| "ieee_add NegInf b = NegInf"
| "ieee_add (Fin a) b = b"

definition ieee_sub :: "ieee \<Rightarrow> ieee \<Rightarrow> ieee" where
  "ieee_sub a b = ieee_add a (ieee_neg b)"

fun ieee_mul :: "ieee \<Rightarrow> ieee \<Rightarrow> ieee" where
  "ieee_mul NaNv b = NaNv"
| "ieee_mul a NaNv = NaNv"
| "ieee_mul (Fin a) (Fin b) = round64 (a * b)"
| "ieee_mul (Fin a) PosInf = (if a = 0 then NaNv else if 0 < a then PosInf else NegInf)"
| "ieee_mul (Fin a) NegInf = (if a = 0 then NaNv else if 0 < a then NegInf else PosInf)"
| "ieee_mul PosInf (Fin b) = (if b = 0 then NaNv else if 0 < b then PosInf else NegInf)"
| "ieee_mul NegInf (Fin b) = (if b = 0 then NaNv else if 0 < b then NegInf else PosInf)"
| "ieee_mul PosInf PosInf = PosInf"
| "ieee_mul NegInf NegInf = PosInf"
| "ieee_mul PosInf NegInf = NegInf"
| "ieee_mul NegInf PosInf = NegInf"

fun ieee_div :: "ieee \<Rightarrow> ieee \<Rightarrow> ieee" where
  "ieee_div NaNv b = NaNv"
| "ieee_div a NaNv = NaNv"
| "ieee_div (Fin a) (Fin b) =
     (if b = 0 then (if a = 0 then NaNv else if 0 < a then PosInf else NegInf)
      else round64 (a / b))"
| "ieee_div (Fin a) b = Fin 0"
| "ieee_div PosInf (Fin b) = (if 0 \<le> b then PosInf else NegInf)"
| "ieee_div NegInf (Fin b) = (if 0 \<le> b then NegInf else PosInf)"
| "ieee_div a b = NaNv"

fun ieee_lt :: "ieee \<Rightarrow> ieee \<Rightarrow> bool" where
  "ieee_lt NaNv b = False"
| "ieee_lt a NaNv = False"
| "ieee_lt (Fin a) (Fin b) = (a < b)"
| "ieee_lt a NegInf = False"
| "ieee_lt PosInf b = False"
| "ieee_lt NegInf b = True"
| "ieee_lt (Fin a) PosInf = True"

text \<open>\<^verbatim>\<open>Math.max\<close> of two numbers: \<^verbatim>\<open>NaN\<close> as soon as one of them is.\<close>

definition ieee_max :: "ieee \<Rightarrow> ieee \<Rightarrow> ieee" where
  "ieee_max a b = (if a = NaNv \<or> b = NaNv then NaNv else if ieee_lt a b then b else a)"

text \<open>
  \<^verbatim>\<open>Math.exp\<close>. ECMAScript fixes the results for \<^verbatim>\<open>NaN\<close>, the infinities and zero, and
  leaves the precision of the other results to the implementation; the model takes the
  correctly rounded value of the exponential.
\<close>

fun mathExp :: "ieee \<Rightarrow> ieee" where
  "mathExp NaNv = NaNv"
| "mathExp PosInf = PosInf"
| "mathExp NegInf = Fin 0"
| "mathExp (Fin x) = (if x = 0 then Fin 1 else round64 (exp x))"

section \<open>Sampling\<close>

text \<open>
  \<^verbatim>\<open>scaledLogits[i] = logits[i] / Math.max(temperature, 1e-8)\<close>: the logits are the elements
  of a \<^verbatim>\<open>Float32Array\<close>, the temperature is a number, the literal \<^verbatim>\<open>1e-8\<close> is the binary64
  value nearest to \<open>1 / 10 ^ 8\<close>; the quotient is a binary64 value, and the store into
  \<^verbatim>\<open>scaledLogits\<close> rounds it to binary32.
\<close>

definition scale :: "ieee list \<Rightarrow> ieee \<Rightarrow> ieee list" where
  "scale logits temperature =
     map (\<lambda>l. to_f32 (ieee_div l (ieee_max temperature (round64 (1 / 10 ^ 8))))) logits"

text \<open>
  Top-K filtering. \<^verbatim>\<open>indices.sort((a, b) => scaledLogits[b] - scaledLogits[a])\<close> is a stable
  sort by descending score. The difference of two binary32 values has the sign of their
  exact difference; the difference of two equal infinities is \<^verbatim>\<open>NaN\<close>, which \<^verbatim>\<open>sort\<close> takes
  for 0. So \<^verbatim>\<open>Infinity\<close> comes first, then the finite scores in descending order, then
  \<^verbatim>\<open>-Infinity\<close>, equal scores in the order of their indices: \<open>sort_key\<close> on \<open>desc_key\<close>. A score
  \<^verbatim>\<open>NaN\<close> makes the comparator inconsistent and the order implementation-defined;
  \<open>desc_key\<close> puts it last, and nothing below is stated for such scores. The loop from
  \<open>topK\<close> on writes \<^verbatim>\<open>-Infinity\<close> at the indices that follow.
\<close>

fun desc_key :: "ieee \<Rightarrow> nat \<times> real" where
  "desc_key PosInf = (0, 0)"
| "desc_key (Fin x) = (1, - x)"
| "desc_key NegInf = (2, 0)"
| "desc_key NaNv = (3, 0)"

definition sorted_indices :: "ieee list \<Rightarrow> nat list" where
  "sorted_indices scaled = sort_key (\<lambda>i. desc_key (scaled ! i)) [0..<length scaled]"

definition topk_filter :: "ieee list \<Rightarrow> int \<Rightarrow> ieee list" where
  "topk_filter scaled topK =
     (if 0 < topK \<and> topK < int (length scaled)
      then fold (\<lambda>i s. s[i := NegInf]) (drop (nat topK) (sorted_indices scaled)) scaled
      else scaled)"

text \<open>The loop that finds the maximum: \<^verbatim>\<open>if (scaledLogits[i] > maxLogit) maxLogit = scaledLogits[i]\<close>.\<close>

definition max_logit :: "ieee list \<Rightarrow> ieee" where
  "max_logit scaled = fold (\<lambda>s m. if ieee_lt m s then s else m) scaled NegInf"

text \<open>
  The softmax loop: an entry \<^verbatim>\<open>-Infinity\<close> has probability 0 and adds nothing to \<^verbatim>\<open>sumExp\<close>; the
  others \<^verbatim>\<open>Math.exp(scaledLogits[i] - maxLogit)\<close>, stored into the \<^verbatim>\<open>Float32Array\<close>
  \<^verbatim>\<open>probs\<close> and read from there for \<^verbatim>\<open>sumExp += probs[i]\<close>.
\<close>

definition prob :: "ieee \<Rightarrow> ieee \<Rightarrow> ieee" where
  "prob m s = (if s = NegInf then Fin 0 else to_f32 (mathExp (ieee_sub s m)))"

definition softmax_probs :: "ieee list \<Rightarrow> ieee list" where
  "softmax_probs scaled = map (prob (max_logit scaled)) scaled"

definition sum_exp :: "ieee list \<Rightarrow> ieee" where
  "sum_exp scaled =
     fold (\<lambda>s acc. if s = NegInf then acc else ieee_add acc (prob (max_logit scaled) s))
       scaled (Fin 0)"

text \<open>
  The walk along the cumulative distribution, from index \<open>i\<close> with the sum so far:
  \<^verbatim>\<open>cumulative += probs[i]; if (r < cumulative) return i\<close>.
\<close>

fun walk :: "ieee list \<Rightarrow> ieee \<Rightarrow> ieee \<Rightarrow> nat \<Rightarrow> nat option" where
  "walk [] r cumulative i = None"
| "walk (p # ps) r cumulative i =
     (if ieee_lt r (ieee_add cumulative p) then Some i
      else walk ps r (ieee_add cumulative p) (i + 1))"

text \<open>
  \<^verbatim>\<open>sample\<close>; \<open>u\<close> is the value of \<^verbatim>\<open>Math.random()\<close>. When no cumulative sum exceeds
  \<^verbatim>\<open>r = Math.random() * sumExp\<close>, the last index is returned.
\<close>

definition sample :: "real \<Rightarrow> ieee list \<Rightarrow> ieee \<Rightarrow> int \<Rightarrow> int" where
  "sample u logits temperature topK =
     (let scaledLogits = topk_filter (scale logits temperature) topK;
          probs = softmax_probs scaledLogits;
          r = ieee_mul (Fin u) (sum_exp scaledLogits)
      in case walk probs r (Fin 0) 0 of Some i \<Rightarrow> int i | None \<Rightarrow> int (length probs) - 1)"

lemmas sample_eval = sample_def topk_filter_def sorted_indices_def max_logit_def
  softmax_probs_def sum_exp_def prob_def ieee_sub_def Let_def

section \<open>Rounding\<close>

subsection \<open>Powers of two\<close>

lemma pow2_pos [simp]: "0 < (2::real) powi k"
  by simp

lemma pow2_add: "(2::real) powi (a + b) = 2 powi a * 2 powi b"
  by (simp add: power_int_add)

lemma pow2_mono: "a \<le> b \<Longrightarrow> (2::real) powi a \<le> 2 powi b"
  by (rule power_int_increasing) simp_all

lemma pow2_strict_mono: "a < b \<Longrightarrow> (2::real) powi a < 2 powi b"
  by (rule power_int_strict_increasing) simp_all

lemma pow2_int: "0 \<le> k \<Longrightarrow> (2::real) powi k = of_int (2 ^ nat k)"
  by (simp add: power_int_def)

lemma pow2_div: "(2::real) powi a / 2 powi b = 2 powi (a - b)"
  by (simp add: power_int_diff)

lemma expo_ge_iff: "0 < x \<Longrightarrow> k \<le> expo x \<longleftrightarrow> 2 powi k \<le> x"
proof -
  assume x: "0 < x"
  have "k \<le> expo x \<longleftrightarrow> real_of_int k \<le> log 2 x"
    using x by (simp add: expo_def le_floor_iff)
  also have "\<dots> \<longleftrightarrow> 2 powr (real_of_int k) \<le> x"
    using x by (intro le_log_iff) simp_all
  also have "2 powr (real_of_int k) = (2::real) powi k"
    by (simp add: powr_real_of_int')
  finally show ?thesis .
qed

lemma expo_le_iff: "0 < x \<Longrightarrow> expo x \<le> k \<longleftrightarrow> x < 2 powi (k + 1)"
  using expo_ge_iff [of x "k + 1"] by auto

lemma expo_minus [simp]: "expo (- x) = expo x"
  by (simp add: expo_def)

subsection \<open>Rounding to the nearest integer, ties to even\<close>

lemma rne_of_int [simp]: "rne (of_int n) = n"
  by (simp add: rne_def)

lemma rne_zero [simp]: "rne 0 = 0"
  by (simp add: rne_def)

lemma rne_le: "x \<le> of_int M \<Longrightarrow> rne x \<le> M"
proof -
  assume a: "x \<le> of_int M"
  then have f: "\<lfloor>x\<rfloor> \<le> M" by (simp add: floor_le_iff)
  show ?thesis
  proof (cases "\<lfloor>x\<rfloor> = M")
    case True
    then have "of_int M \<le> x" by (metis of_int_floor_le)
    with a have "x = of_int M" by simp
    then show ?thesis by simp
  next
    case False
    with f have "\<lfloor>x\<rfloor> + 1 \<le> M" by simp
    then show ?thesis by (auto simp: rne_def Let_def)
  qed
qed

lemma rne_ge: "of_int M \<le> x \<Longrightarrow> M \<le> rne x"
proof -
  assume "of_int M \<le> x"
  then have "M \<le> \<lfloor>x\<rfloor>" by (simp add: le_floor_iff)
  then show ?thesis by (auto simp: rne_def Let_def)
qed

lemma rne_below_half: "x < of_int M - 1 / 2 \<Longrightarrow> rne x \<le> M - 1"
proof -
  assume a: "x < of_int M - 1 / 2"
  then have "x < of_int M" by simp
  then have f: "\<lfloor>x\<rfloor> \<le> M - 1" by (simp add: floor_less_iff)
  show ?thesis
  proof (cases "\<lfloor>x\<rfloor> = M - 1")
    case True
    then have "x - of_int \<lfloor>x\<rfloor> < 1 / 2" using a by simp
    then show ?thesis using True by (simp add: rne_def Let_def)
  next
    case False
    with f have "\<lfloor>x\<rfloor> + 1 \<le> M - 1" by simp
    then show ?thesis by (auto simp: rne_def Let_def)
  qed
qed

subsection \<open>Rounding to a format\<close>

lemma round_to_zero [simp]: "round_to p emin emax 0 = Fin 0"
  by (simp add: round_to_def)

text \<open>The quantum of a number, and the number of quanta it holds.\<close>

definition quantum :: "nat \<Rightarrow> int \<Rightarrow> real \<Rightarrow> real" where
  "quantum p emin x = 2 powi (max (expo x) emin - int p + 1)"

lemma quantum_pos [simp]: "0 < quantum p emin x"
  by (simp add: quantum_def)

lemma quantum_nonneg [simp]: "0 \<le> quantum p emin x"
  by (simp add: quantum_def)

lemma quantum_neq0 [simp]: "quantum p emin x \<noteq> 0"
  using quantum_pos [of p emin x] by linarith

lemma quantum_abs [simp]: "\<bar>quantum p emin x\<bar> = quantum p emin x"
  by simp

lemma round_to_quantum:
  "x \<noteq> 0 \<Longrightarrow> round_to p emin emax x =
     (if 2 powi (emax + 1) \<le> \<bar>of_int (rne (x / quantum p emin x)) * quantum p emin x\<bar>
      then (if 0 < x then PosInf else NegInf)
      else Fin (of_int (rne (x / quantum p emin x)) * quantum p emin x))"
  by (simp add: round_to_def quantum_def Let_def)

lemma abs_less_pow2: "x \<noteq> 0 \<Longrightarrow> \<bar>x\<bar> < 2 powi (max (expo x) emin + 1)"
proof -
  assume "x \<noteq> 0"
  then have "0 < \<bar>x\<bar>" by simp
  from expo_le_iff [OF this, of "expo x"] have "\<bar>x\<bar> < 2 powi (expo x + 1)"
    by (simp add: expo_def)
  also have "\<dots> \<le> 2 powi (max (expo x) emin + 1)"
    by (rule pow2_mono) simp
  finally show ?thesis .
qed

lemma quanta_less:
  assumes "x \<noteq> 0"
  shows "\<bar>x / quantum p emin x\<bar> < 2 ^ p"
proof -
  have "\<bar>x\<bar> < 2 powi (max (expo x) emin + 1)" using assms by (rule abs_less_pow2)
  also have "\<dots> = 2 powi (int p) * quantum p emin x"
    unfolding quantum_def pow2_add [symmetric] by simp
  finally have "\<bar>x\<bar> / quantum p emin x < 2 powi (int p)"
    by (simp add: pos_divide_less_eq)
  then show ?thesis by (simp add: abs_of_pos)
qed

lemma quanta_ge:
  assumes "0 < x" "emin \<le> expo x" "0 < p"
  shows "2 ^ (p - 1) \<le> x / quantum p emin x"
proof -
  have "2 powi (int p - 1) * quantum p emin x = 2 powi (expo x)"
    using assms(2) by (simp add: quantum_def pow2_add [symmetric] max_def)
  also have "\<dots> \<le> x" using expo_ge_iff [OF assms(1), of "expo x"] by simp
  finally have "2 powi (int p - 1) \<le> x / quantum p emin x"
    by (simp add: pos_le_divide_eq)
  moreover have "(2::real) powi (int p - 1) = 2 ^ (p - 1)"
    using assms(3) by (simp add: power_int_def nat_diff_distrib')
  ultimately show ?thesis by simp
qed


lemma rne_minus: "rne (- x) = - rne x"
proof (cases "x = of_int \<lfloor>x\<rfloor>")
  case True
  then have "rne (- x) = rne (of_int (- \<lfloor>x\<rfloor>))" by simp
  also have "\<dots> = - \<lfloor>x\<rfloor>" by (rule rne_of_int)
  also have "\<dots> = - rne (of_int \<lfloor>x\<rfloor>)" by simp
  finally show ?thesis using True by simp
next
  case False
  then have c: "\<lceil>x\<rceil> = \<lfloor>x\<rfloor> + 1" by (simp add: ceiling_altdef)
  have f: "\<lfloor>- x\<rfloor> = - \<lfloor>x\<rfloor> - 1" by (simp add: floor_minus c)
  have d: "0 < x - of_int \<lfloor>x\<rfloor>" using False by (metis diff_gt_0_iff_gt of_int_floor_le order_less_le)
  show ?thesis
    unfolding rne_def Let_def f using d by (auto simp: algebra_simps)
qed

lemma quantum_minus [simp]: "quantum p emin (- x) = quantum p emin x"
  by (simp add: quantum_def)

lemma round_to_minus: "round_to p emin emax (- x) = ieee_neg (round_to p emin emax x)"
proof (cases "x = 0")
  case True
  then show ?thesis by simp
next
  case False
  then have "- x \<noteq> 0" by simp
  then show ?thesis
    using False by (simp add: round_to_quantum rne_minus)
qed

lemma round_to_Fin_bound:
  "round_to p emin emax x = Fin y \<Longrightarrow> \<bar>y\<bar> < 2 powi (emax + 1)"
  by (cases "x = 0") (auto simp: round_to_quantum split: if_splits)

lemma round_to_exact:
  assumes "x / quantum p emin x = of_int n" "\<bar>x\<bar> < 2 powi (emax + 1)"
  shows "round_to p emin emax x = Fin x"
proof (cases "x = 0")
  case True
  then show ?thesis by simp
next
  case False
  have "of_int n * quantum p emin x = x"
    using assms(1) quantum_pos [of p emin x] by (simp add: field_simps)
  then show ?thesis
    using False assms by (simp add: round_to_quantum)
qed

lemma round_to_fixed:
  assumes "round_to p emin emax x = Fin x"
  shows "x / quantum p emin x = of_int (rne (x / quantum p emin x))"
proof (cases "x = 0")
  case True
  then show ?thesis by simp
next
  case False
  with assms have "of_int (rne (x / quantum p emin x)) * quantum p emin x = x"
    by (simp add: round_to_quantum split: if_splits)
  then show ?thesis
    using quantum_pos [of p emin x] by (simp add: field_simps)
qed

lemma expo_pow2 [simp]: "expo (2 powi k) = k"
proof -
  have "k \<le> expo (2 powi k)" by (simp add: expo_ge_iff)
  moreover have "expo (2 powi k) \<le> k" by (simp add: expo_le_iff pow2_strict_mono)
  ultimately show ?thesis by simp
qed


text \<open>The rounded value has the sign of the number, and at most \<open>2 ^ p\<close> quanta.\<close>

lemma round_quanta_bounds:
  assumes "x \<noteq> 0"
  shows "\<bar>rne (x / quantum p emin x)\<bar> \<le> 2 ^ p"
    and "0 \<le> x \<Longrightarrow> 0 \<le> rne (x / quantum p emin x)"
    and "x \<le> 0 \<Longrightarrow> rne (x / quantum p emin x) \<le> 0"
proof -
  let ?t = "x / quantum p emin x"
  from quanta_less [OF assms, of p emin] have "?t \<le> 2 ^ p" "- (2 ^ p) \<le> ?t"
    by linarith+
  then have t: "?t \<le> of_int (2 ^ p)" "of_int (- (2 ^ p)) \<le> ?t"
    by simp_all
  have "rne ?t \<le> 2 ^ p" "- (2 ^ p) \<le> rne ?t"
    using rne_le [OF t(1)] rne_ge [OF t(2)] by simp_all
  then show "\<bar>rne ?t\<bar> \<le> 2 ^ p" by simp
  show "0 \<le> rne ?t" if "0 \<le> x"
    using that rne_ge [of 0 ?t] by simp
  show "rne ?t \<le> 0" if "x \<le> 0"
    using that rne_le [of ?t 0] by (simp add: divide_nonpos_pos)
qed

lemma round_to_finite:
  assumes "\<bar>x\<bar> < 2 powi b" "b \<le> emax" "emin < emax"
  shows "\<exists>y. round_to p emin emax x = Fin y \<and> (0 \<le> x \<longrightarrow> 0 \<le> y) \<and> (x \<le> 0 \<longrightarrow> y \<le> 0)"
proof (cases "x = 0")
  case True
  then show ?thesis by simp
next
  case False
  let ?q = "quantum p emin x"
  let ?n = "rne (x / ?q)"
  have "expo x \<le> b - 1"
    using assms(1) False expo_le_iff [of "\<bar>x\<bar>" "b - 1"] by (simp add: expo_def)
  then have e: "max (expo x) emin + 1 \<le> emax" using assms(2,3) by simp
  have "\<bar>of_int ?n * ?q\<bar> = of_int \<bar>?n\<bar> * ?q"
    by (simp add: abs_mult)
  also have "\<dots> \<le> of_int (2 ^ p) * ?q"
    using round_quanta_bounds(1) [OF False, of p emin]
    by (intro mult_right_mono) (simp_all only: of_int_le_iff quantum_pos less_imp_le)
  also have "\<dots> = 2 powi (int p) * ?q" by simp
  also have "\<dots> = 2 powi (max (expo x) emin + 1)"
    unfolding quantum_def pow2_add [symmetric] by simp
  also have "\<dots> \<le> 2 powi emax" using e by (rule pow2_mono)
  also have "\<dots> < 2 powi (emax + 1)" by (rule pow2_strict_mono) simp
  finally have fin: "round_to p emin emax x = Fin (of_int ?n * ?q)"
    using False by (simp add: round_to_quantum)
  have "0 \<le> of_int ?n * ?q" if "0 \<le> x"
    using round_quanta_bounds(2) [OF False that, of p emin] by simp
  moreover have "of_int ?n * ?q \<le> 0" if "x \<le> 0"
    using round_quanta_bounds(3) [OF False that, of p emin]
    by (simp add: mult_nonpos_nonneg)
  ultimately show ?thesis using fin by simp
qed

text \<open>Integers below \<open>2 ^ p\<close> are on the grid of every number between them.\<close>

lemma round_to_between:
  assumes "of_int L \<le> x" "x \<le> of_int N" "\<bar>L\<bar> < 2 ^ p" "\<bar>N\<bar> < 2 ^ p"
    and "emin < int p" "int p \<le> emax + 1"
  shows "\<exists>y. round_to p emin emax x = Fin y \<and> of_int L \<le> y \<and> y \<le> of_int N"
proof (cases "x = 0")
  case True
  with assms(1,2) show ?thesis by simp
next
  case False
  let ?q = "quantum p emin x"
  let ?n = "rne (x / ?q)"
  have "real_of_int \<bar>L\<bar> < of_int (2 ^ p)" "real_of_int \<bar>N\<bar> < of_int (2 ^ p)"
    using assms(3,4) by (simp_all only: of_int_less_iff)
  then have LN: "\<bar>real_of_int L\<bar> < 2 ^ p" "\<bar>real_of_int N\<bar> < 2 ^ p"
    by simp_all
  have ax: "\<bar>x\<bar> < 2 powi (int p)"
    using assms(1,2) LN by simp
  then have "expo x \<le> int p - 1"
    using False expo_le_iff [of "\<bar>x\<bar>" "int p - 1"] by (simp add: expo_def)
  then have k: "0 \<le> int p - 1 - max (expo x) emin" using assms(5) by simp
  define K :: int where "K = 2 ^ nat (int p - 1 - max (expo x) emin)"
  have "?q * 2 powi (int p - 1 - max (expo x) emin) = 1"
    unfolding quantum_def pow2_add [symmetric] by simp
  then have qK: "?q * of_int K = 1"
    using pow2_int [OF k] by (simp add: K_def)
  then have inv: "y / ?q = y * of_int K" for y
    using quantum_pos [of p emin x] by (simp add: field_simps)
  have Kp: "0 < K" by (simp add: K_def)
  have t: "x / ?q \<le> of_int (N * K)" "of_int (L * K) \<le> x / ?q"
    using assms(1,2) Kp by (simp_all add: inv mult_right_mono)
  have "?n \<le> N * K" "L * K \<le> ?n"
    using rne_le [OF t(1)] rne_ge [OF t(2)] by simp_all
  then have c: "(of_int ?n :: real) \<le> of_int (N * K)" "(of_int (L * K) :: real) \<le> of_int ?n"
    by (simp_all only: of_int_le_iff)
  have c1: "of_int ?n * ?q \<le> of_int (N * K) * ?q"
    using c(1) quantum_nonneg by (rule mult_right_mono)
  have c2: "of_int (L * K) * ?q \<le> of_int ?n * ?q"
    using c(2) quantum_nonneg by (rule mult_right_mono)
  have m: "of_int (M * K) * ?q = of_int M" for M :: int
  proof -
    have "of_int (M * K) * ?q = of_int M * (?q * of_int K)" by simp
    then show ?thesis by (simp only: qK mult_1_right)
  qed
  have b: "of_int ?n * ?q \<le> of_int N" "of_int L \<le> of_int ?n * ?q"
    using c1 c2 by (simp_all only: m)
  have "\<bar>of_int ?n * ?q\<bar> < 2 ^ p" using b LN by linarith
  also have "2 ^ p = (2::real) powi (int p)" by simp
  also have "\<dots> \<le> 2 powi (emax + 1)" using assms(6) by (rule pow2_mono)
  finally have "round_to p emin emax x = Fin (of_int ?n * ?q)"
    using False by (simp add: round_to_quantum)
  with b show ?thesis by simp
qed

lemma round_to_ge_pow2:
  assumes "2 powi a \<le> x" "emin \<le> a" "0 < p"
  shows "round_to p emin emax x = PosInf \<or> (\<exists>y. round_to p emin emax x = Fin y \<and> 2 powi a \<le> y)"
proof -
  let ?q = "quantum p emin x"
  let ?n = "rne (x / ?q)"
  have x: "0 < x" using assms(1) pow2_pos [of a] by linarith
  then have ex: "a \<le> expo x" using assms(1) by (simp add: expo_ge_iff)
  then have "emin \<le> expo x" using assms(2) by simp
  from quanta_ge [OF x this assms(3)] have "of_int (2 ^ (p - 1)) \<le> x / ?q" by simp
  then have "2 ^ (p - 1) \<le> ?n" by (rule rne_ge)
  then have "(of_int (2 ^ (p - 1)) :: real) \<le> of_int ?n" by (simp only: of_int_le_iff)
  then have "of_int (2 ^ (p - 1)) * ?q \<le> of_int ?n * ?q"
    by (intro mult_right_mono) simp_all
  moreover have "of_int (2 ^ (p - 1)) * ?q = 2 powi (int p - 1) * ?q"
    using assms(3) by (simp add: power_int_def nat_diff_distrib')
  moreover have "2 powi (int p - 1) * ?q = 2 powi (expo x)"
    unfolding quantum_def pow2_add [symmetric] using \<open>emin \<le> expo x\<close> by (simp add: max_def)
  moreover have "2 powi a \<le> (2::real) powi (expo x)" using ex by (rule pow2_mono)
  ultimately have "2 powi a \<le> of_int ?n * ?q" by linarith
  then show ?thesis
    using x by (simp add: round_to_quantum)
qed



text \<open>A rounded value is a number of the format: rounding it again changes nothing.\<close>

lemma round_to_idem_pos:
  assumes "0 < x" "round_to p emin emax x = Fin y" "0 < p"
  shows "round_to p emin emax y = Fin y"
proof -
  let ?q = "quantum p emin x"
  let ?e = "max (expo x) emin"
  define n where "n = rne (x / ?q)"
  have x0: "x \<noteq> 0" using assms(1) by simp
  have y: "y = of_int n * ?q" and fin: "\<bar>y\<bar> < 2 powi (emax + 1)"
    using assms(2) x0 by (auto simp: round_to_quantum n_def split: if_splits)
  have n0: "0 \<le> n" and np: "n \<le> 2 ^ p"
    using round_quanta_bounds(1,2) [OF x0, of p emin] assms(1) by (simp_all add: n_def)
  have pq: "2 powi (int p) * ?q = 2 powi (?e + 1)"
    unfolding quantum_def pow2_add [symmetric] by simp
  show ?thesis
  proof (cases "n = 0")
    case True
    then show ?thesis by (simp add: y)
  next
    case False
    with n0 have n1: "1 \<le> n" by simp
    then have "(1::real) \<le> of_int n" by simp
    then have "1 * ?q \<le> of_int n * ?q" using quantum_nonneg by (rule mult_right_mono)
    then have ypos: "0 < y" using quantum_pos [of p emin x] by (simp add: y)
    show ?thesis
    proof (cases "n = 2 ^ p")
      case True
      then have y2: "y = 2 powi (?e + 1)" using pq by (simp add: y)
      have "max (expo y) emin = ?e + 1" by (simp add: y2)
      then have "quantum p emin y = 2 powi (?e + 1 - int p + 1)" by (simp add: quantum_def)
      then have "y / quantum p emin y = 2 powi (int p - 1)"
        by (simp add: y2 pow2_div)
      also have "\<dots> = of_int (2 ^ (p - 1))"
        using assms(3) by (simp add: power_int_def nat_diff_distrib')
      finally show ?thesis using fin by (rule round_to_exact)
    next
      case False
      with np have "n < 2 ^ p" by simp
      then have "(of_int n :: real) < of_int (2 ^ p)" by (simp only: of_int_less_iff)
      then have "of_int n < (2::real) powi (int p)" by simp
      then have "of_int n * ?q < 2 powi (int p) * ?q"
        using quantum_pos by (rule mult_strict_right_mono)
      then have "y < 2 powi (?e + 1)" by (simp only: y pq)
      then have up: "expo y \<le> ?e" using ypos by (simp add: expo_le_iff)
      have "max (expo y) emin = ?e"
      proof (cases "emin \<le> expo x")
        case True
        from quanta_ge [OF assms(1) True assms(3)] have "of_int (2 ^ (p - 1)) \<le> x / ?q" by simp
        then have "2 ^ (p - 1) \<le> n" unfolding n_def by (rule rne_ge)
        then have "(of_int (2 ^ (p - 1)) :: real) \<le> of_int n" by (simp only: of_int_le_iff)
        then have "of_int (2 ^ (p - 1)) * ?q \<le> of_int n * ?q"
          using quantum_nonneg by (rule mult_right_mono)
        moreover have "of_int (2 ^ (p - 1)) * ?q = 2 powi (int p - 1) * ?q"
          using assms(3) by (simp add: power_int_def nat_diff_distrib')
        moreover have "2 powi (int p - 1) * ?q = 2 powi (expo x)"
          unfolding quantum_def pow2_add [symmetric] using True by (simp add: max_def)
        ultimately have "2 powi (expo x) \<le> y" unfolding y by linarith
        then have "expo x \<le> expo y" using ypos by (simp add: expo_ge_iff)
        with up True show ?thesis by simp
      next
        case False
        with up show ?thesis by simp
      qed
      then have "quantum p emin y = ?q" by (simp add: quantum_def)
      then have "y / quantum p emin y = of_int n" by (simp add: y)
      then show ?thesis using fin by (rule round_to_exact)
    qed
  qed
qed

lemma round_to_idem:
  assumes "round_to p emin emax x = Fin y" "0 < p"
  shows "round_to p emin emax y = Fin y"
proof -
  consider "x = 0" | "0 < x" | "x < 0" by linarith
  then show ?thesis
  proof cases
    case 1
    with assms(1) show ?thesis by auto
  next
    case 2
    from this assms show ?thesis by (rule round_to_idem_pos)
  next
    case 3
    then have "0 < - x" by simp
    moreover have "round_to p emin emax (- x) = Fin (- y)"
      by (simp add: round_to_minus assms(1))
    ultimately have "round_to p emin emax (- y) = Fin (- y)"
      using assms(2) by (rule round_to_idem_pos)
    then have "ieee_neg (round_to p emin emax y) = Fin (- y)"
      by (simp add: round_to_minus)
    then show ?thesis by (cases "round_to p emin emax y") auto
  qed
qed


text \<open>The largest number of the format below 1 is \<open>1 - 2 powi (- p)\<close>.\<close>

lemma below_one:
  assumes "round_to p emin emax u = Fin u" "0 < u" "u < 1" "0 < p" "emin < 0"
  shows "u \<le> 1 - 2 powi (- int p)"
proof -
  have eu: "expo u \<le> - 1" using assms(2,3) expo_le_iff [of u "- 1"] by simp
  define e where "e = max (expo u) emin"
  have e1: "e \<le> - 1" using eu assms(5) by (simp add: e_def)
  have "(2::real) powi (- int p) \<le> 2 powi (- 1)"
    using assms(4) by (intro pow2_mono) simp
  then have half: "2 powi (- int p) \<le> (1 / 2 :: real)" by simp
  show ?thesis
  proof (cases "e = - 1")
    case True
    define h :: real where "h = 2 powi (- int p)"
    have q: "quantum p emin u = h"
      unfolding quantum_def e_def [symmetric] True h_def by simp
    define n where "n = rne (u / h)"
    from round_to_fixed [OF assms(1)] have "u / h = of_int n" by (simp add: n_def q)
    moreover have hp: "0 < h" by (simp add: h_def)
    ultimately have u: "u = of_int n * h" by (simp add: field_simps)
    have "of_int (2 ^ p) * h = 2 powi (int p) * 2 powi (- int p)" by (simp add: h_def)
    also have "\<dots> = 2 powi (int p + - int p)" by (simp only: pow2_add)
    finally have one: "of_int (2 ^ p) * h = 1" by simp
    have "of_int n * h < of_int (2 ^ p) * h" using assms(3) by (simp only: u [symmetric] one)
    then have "(of_int n :: real) < of_int (2 ^ p)"
      using hp by (simp only: mult_less_cancel_right_pos)
    then have "n < 2 ^ p" by (simp only: of_int_less_iff)
    then have "n \<le> 2 ^ p - 1" by simp
    then have "(of_int n :: real) \<le> of_int (2 ^ p - 1)" by (simp only: of_int_le_iff)
    then have "of_int n * h \<le> of_int (2 ^ p - 1) * h"
      using hp by (intro mult_right_mono) simp_all
    also have "\<dots> = of_int (2 ^ p) * h - h" by (simp add: algebra_simps)
    finally have "u \<le> 1 - h" by (simp only: u [symmetric] one)
    then show ?thesis by (simp only: h_def)
  next
    case False
    with e1 have "e + 1 \<le> - 1" by simp
    have "u < 2 powi (e + 1)" using abs_less_pow2 [of u emin] assms(2) by (simp add: e_def)
    also have "\<dots> \<le> 2 powi (- 1)" by (rule pow2_mono) fact
    finally have "u < 1 / 2" by simp
    with half show ?thesis by linarith
  qed
qed

text \<open>
  The product of a number of the format in \<open>[0, 1)\<close> and a number \<open>s \<ge> 1\<close> of the format
  rounds to a number below \<open>s\<close>.
\<close>

lemma draw_below:
  assumes u: "round_to p emin emax u = Fin u" "0 \<le> u" "u < 1"
    and s: "round_to p emin emax s = Fin s" "1 \<le> s"
    and par: "0 < p" "emin < 0"
  shows "\<exists>r. round_to p emin emax (u * s) = Fin r \<and> 0 \<le> r \<and> r < s"
proof (cases "u = 0")
  case True
  with s(2) show ?thesis by simp
next
  case False
  with u(2) have u0: "0 < u" by simp
  define h :: real where "h = 2 powi (- int p)"
  have hp: "0 < h" by (simp add: h_def)
  have uh: "u \<le> 1 - h" unfolding h_def using u(1) u0 u(3) par by (rule below_one)
  define x where "x = u * s"
  have s0: "0 < s" using s(2) by simp
  have x0: "0 < x" using u0 s0 by (simp add: x_def)
  have "x \<le> (1 - h) * s" unfolding x_def using uh s0 by (intro mult_right_mono) simp_all
  then have xs: "x \<le> s - s * h" by (simp add: algebra_simps)
  have "0 < s * h" using s0 hp by simp
  with xs have xlt: "x < s" by linarith
  define es where "es = expo s"
  have es0: "0 \<le> es" using s(2) s0 expo_ge_iff [of s 0] by (simp add: es_def)
  then have ems: "emin \<le> expo s" using par(2) by (simp add: es_def)
  define qs where "qs = quantum p emin s"
  have qs: "qs = 2 powi (es - int p + 1)" using ems by (simp add: qs_def quantum_def es_def max_def)
  have qsp: "0 < qs" by (simp add: qs_def)
  define ns where "ns = rne (s / qs)"
  from round_to_fixed [OF s(1)] have "s / qs = of_int ns" by (simp add: ns_def qs_def)
  then have sn: "s = of_int ns * qs" using qsp by (simp add: field_simps)
  from quanta_ge [OF s0 ems par(1)] have "of_int (2 ^ (p - 1)) \<le> s / qs" by (simp add: qs_def)
  then have nslow: "2 ^ (p - 1) \<le> ns" unfolding ns_def by (rule rne_ge)
  have hq: "of_int (2 ^ (p - 1)) * h = 1 / 2"
  proof -
    have "of_int (2 ^ (p - 1)) * h = 2 powi (int p - 1) * 2 powi (- int p)"
      using par(1) by (simp add: h_def power_int_def nat_diff_distrib')
    also have "\<dots> = 2 powi (int p - 1 + - int p)" by (simp only: pow2_add)
    finally show ?thesis by simp
  qed
  define ex where "ex = max (expo x) emin"
  define qx where "qx = quantum p emin x"
  have qx: "qx = 2 powi (ex - int p + 1)" by (simp add: qx_def quantum_def ex_def)
  have qxp: "0 < qx" by (simp add: qx_def)
  have "s < 2 powi (es + 1)" using s0 expo_le_iff [of s es] by (simp add: es_def)
  with xlt have "x < 2 powi (es + 1)" by linarith
  then have "expo x \<le> es" using x0 by (simp add: expo_le_iff)
  then have exs: "ex \<le> es" using ems by (simp add: ex_def es_def)
  define K :: int where "K = 2 ^ nat (es - ex)"
  have Kp: "0 < K" by (simp add: K_def)
  have "qx * 2 powi (es - ex) = 2 powi (ex - int p + 1 + (es - ex))"
    by (simp only: qx pow2_add)
  also have "ex - int p + 1 + (es - ex) = es - int p + 1" by simp
  finally have "qx * 2 powi (es - ex) = qs" by (simp only: qs)
  moreover have "(2::real) powi (es - ex) = of_int K"
    using exs pow2_int [of "es - ex"] by (simp add: K_def)
  ultimately have qK: "qs = of_int K * qx" by (simp only: mult.commute)
  define n where "n = rne (x / qx)"
  have n0: "0 \<le> n" using round_quanta_bounds(2) [of x p emin] x0 by (simp add: n_def qx_def)
  have sM: "s = of_int (ns * K) * qx" by (simp add: sn qK)
  have "n \<le> ns * K - 1"
  proof (cases "ex = es")
    case True
    then have K1: "K = 1" by (simp add: K_def)
    then have qq: "qs = qx" by (simp add: qK)
    have "ns \<noteq> 2 ^ (p - 1)"
    proof
      assume "ns = 2 ^ (p - 1)"
      then have "s = of_int (2 ^ (p - 1)) * qs" by (simp only: sn)
      also have "\<dots> = 2 powi (int p - 1) * qs"
        using par(1) by (simp add: power_int_def nat_diff_distrib')
      also have "\<dots> = 2 powi (int p - 1 + (es - int p + 1))" by (simp only: qs pow2_add)
      also have "\<dots> = 2 powi es" by simp
      finally have "x < 2 powi (es - 1 + 1)" using xlt by simp
      then have "expo x \<le> es - 1" using x0 by (simp only: expo_le_iff)
      with True es0 par(2) show False by (simp add: ex_def)
    qed
    with nslow have "2 ^ (p - 1) + 1 \<le> ns" by simp
    then have "(of_int (2 ^ (p - 1) + 1) :: real) \<le> of_int ns" by (simp only: of_int_le_iff)
    then have "of_int (2 ^ (p - 1) + 1) * h \<le> of_int ns * h"
      using hp by (intro mult_right_mono) simp_all
    moreover have "of_int (2 ^ (p - 1) + 1) * h = 1 / 2 + h"
      using hq by (simp add: algebra_simps)
    ultimately have "1 / 2 < of_int ns * h" using hp by linarith
    then have "1 / 2 * qs < of_int ns * h * qs" using qsp by (rule mult_strict_right_mono)
    moreover have "of_int ns * h * qs = s * h" by (simp add: sn)
    ultimately have "x < s - 1 / 2 * qs" using xs by linarith
    then have "x / qx < (s - 1 / 2 * qs) / qx" using qxp by (rule divide_strict_right_mono)
    also have "(s - 1 / 2 * qs) / qx = of_int ns - 1 / 2"
      using qxp by (simp add: sn qq field_simps)
    finally have "n \<le> ns - 1" unfolding n_def by (rule rne_below_half)
    then show ?thesis by (simp add: K1)
  next
    case False
    with exs have "1 \<le> es - ex" by simp
    then have "(2::int) ^ 1 \<le> 2 ^ nat (es - ex)" by (intro power_increasing) simp_all
    then have "2 \<le> K" by (simp add: K_def)
    then have "(of_int 2 :: real) \<le> of_int K" by (simp only: of_int_le_iff)
    then have "of_int 2 * qx \<le> of_int K * qx" using qxp by (intro mult_right_mono) simp_all
    then have q2: "qx \<le> 1 / 2 * qs" by (simp add: qK)
    have "(of_int (2 ^ (p - 1)) :: real) \<le> of_int ns" using nslow by (simp only: of_int_le_iff)
    then have "of_int (2 ^ (p - 1)) * h \<le> of_int ns * h"
      using hp by (intro mult_right_mono) simp_all
    then have "1 / 2 \<le> of_int ns * h" by (simp only: hq)
    then have "1 / 2 * qs \<le> of_int ns * h * qs" using qsp by (intro mult_right_mono) simp_all
    moreover have "of_int ns * h * qs = s * h" by (simp add: sn)
    ultimately have "x \<le> s - qx" using xs q2 by linarith
    then have "x / qx \<le> (s - qx) / qx" using qxp by (intro divide_right_mono) simp_all
    also have "(s - qx) / qx = of_int (ns * K - 1)"
      using qxp by (simp add: sM field_simps)
    finally show ?thesis unfolding n_def by (rule rne_le)
  qed
  then have "(of_int n :: real) \<le> of_int (ns * K - 1)" by (simp only: of_int_le_iff)
  then have "of_int n * qx \<le> of_int (ns * K - 1) * qx"
    using qxp by (intro mult_right_mono) simp_all
  also have "\<dots> = s - qx" by (simp add: sM algebra_simps)
  finally have rs: "of_int n * qx < s" using qxp by linarith
  have r0: "0 \<le> of_int n * qx" using n0 qxp by simp
  have "\<bar>s\<bar> < 2 powi (emax + 1)" using s(1) by (rule round_to_Fin_bound)
  with rs r0 have "\<not> 2 powi (emax + 1) \<le> \<bar>of_int n * qx\<bar>" by linarith
  then have "round_to p emin emax x = Fin (of_int n * qx)"
    using x0 by (simp add: round_to_quantum n_def qx_def)
  with rs r0 show ?thesis unfolding x_def by blast
qed


lemma round_to_le_pow2:
  assumes "x \<le> 2 powi b" "emin \<le> b" "round_to p emin emax x = Fin y" "0 < p"
  shows "y \<le> 2 powi b"
proof (cases "0 < x")
  case False
  then have "x \<le> 0" by simp
  have "y \<le> 0"
  proof (cases "x = 0")
    case True
    with assms(3) show ?thesis by simp
  next
    case False
    with assms(3) have "y = of_int (rne (x / quantum p emin x)) * quantum p emin x"
      by (simp add: round_to_quantum split: if_splits)
    then show ?thesis
      using round_quanta_bounds(3) [OF False \<open>x \<le> 0\<close>, of p emin]
      by (simp add: mult_nonpos_nonneg)
  qed
  also have "0 \<le> (2::real) powi b" by simp
  finally show ?thesis .
next
  case True
  let ?q = "quantum p emin x"
  let ?e = "max (expo x) emin"
  have x0: "x \<noteq> 0" using True by simp
  from assms(3) x0 have y: "y = of_int (rne (x / ?q)) * ?q"
    by (simp add: round_to_quantum split: if_splits)
  have "expo x \<le> b"
  proof -
    have "x < 2 powi (b + 1)"
      using assms(1) pow2_strict_mono [of b "b + 1"] by simp
    then show ?thesis using True by (simp only: expo_le_iff)
  qed
  then have k: "0 \<le> b - (?e - int p + 1)" using assms(2,4) by simp
  define K :: int where "K = 2 ^ nat (b - (?e - int p + 1))"
  have "2 powi b / ?q = 2 powi (b - (?e - int p + 1))"
    by (simp only: quantum_def pow2_div)
  also have "\<dots> = of_int K" using pow2_int [OF k] by (simp only: K_def)
  finally have BK: "2 powi b / ?q = of_int K" .
  have "x / ?q \<le> 2 powi b / ?q"
    using assms(1) quantum_nonneg by (rule divide_right_mono)
  then have "x / ?q \<le> of_int K" by (simp only: BK)
  then have "rne (x / ?q) \<le> K" by (rule rne_le)
  then have "(of_int (rne (x / ?q)) :: real) \<le> of_int K" by (simp only: of_int_le_iff)
  then have "of_int (rne (x / ?q)) * ?q \<le> of_int K * ?q"
    using quantum_nonneg by (rule mult_right_mono)
  also have "of_int K * ?q = 2 powi b"
    using BK quantum_pos [of p emin x] by (simp add: field_simps)
  finally show ?thesis by (simp only: y)
qed


subsection \<open>The two formats\<close>

lemma round64_idem: "round64 x = Fin y \<Longrightarrow> round64 y = Fin y"
  using round_to_idem [of 53 "- 1022" 1023 x y] by (simp add: round64_def)

lemma round64_between:
  assumes "of_int L \<le> x" "x \<le> of_int N" "\<bar>L\<bar> < 2 ^ 53" "\<bar>N\<bar> < 2 ^ 53"
  shows "\<exists>y. round64 x = Fin y \<and> of_int L \<le> y \<and> y \<le> of_int N"
  unfolding round64_def using assms by (rule round_to_between) simp_all

lemma round32_between:
  assumes "of_int L \<le> x" "x \<le> of_int N" "\<bar>L\<bar> < 2 ^ 24" "\<bar>N\<bar> < 2 ^ 24"
  shows "\<exists>y. round32 x = Fin y \<and> of_int L \<le> y \<and> y \<le> of_int N"
  unfolding round32_def using assms by (rule round_to_between) simp_all

lemma round64_int: "\<bar>n\<bar> < 2 ^ 53 \<Longrightarrow> round64 (of_int n) = Fin (of_int n)"
  using round64_between [of n "of_int n" n] by auto

lemma round32_int: "\<bar>n\<bar> < 2 ^ 24 \<Longrightarrow> round32 (of_int n) = Fin (of_int n)"
  using round32_between [of n "of_int n" n] by auto

lemma round64_zero [simp]: "round64 0 = Fin 0"
  by (simp add: round64_def)

lemma round32_zero [simp]: "round32 0 = Fin 0"
  by (simp add: round32_def)

lemma round64_one [simp]: "round64 1 = Fin 1"
  using round64_int [of 1] by simp

lemma round32_one [simp]: "round32 1 = Fin 1"
  using round32_int [of 1] by simp

lemma round64_numeral [simp]: "\<bar>numeral k :: int\<bar> < 2 ^ 53 \<Longrightarrow> round64 (numeral k) = Fin (numeral k)"
  using round64_int [of "numeral k"] by simp

lemma round32_numeral [simp]: "\<bar>numeral k :: int\<bar> < 2 ^ 24 \<Longrightarrow> round32 (numeral k) = Fin (numeral k)"
  using round32_int [of "numeral k"] by simp

lemma round64_finite:
  assumes "\<bar>x\<bar> < 2 powi b" "b \<le> 1023"
  shows "\<exists>y. round64 x = Fin y \<and> (0 \<le> x \<longrightarrow> 0 \<le> y) \<and> (x \<le> 0 \<longrightarrow> y \<le> 0)"
  unfolding round64_def using assms by (rule round_to_finite) simp

lemma round32_bound: "round32 x = Fin y \<Longrightarrow> \<bar>y\<bar> < 2 powi 128"
  unfolding round32_def using round_to_Fin_bound [of 24 "- 126" 127 x y] by simp

lemma round64_draw:
  assumes "round64 u = Fin u" "0 \<le> u" "u < 1" "round64 s = Fin s" "1 \<le> s"
  shows "\<exists>r. round64 (u * s) = Fin r \<and> 0 \<le> r \<and> r < s"
  using assms unfolding round64_def by (rule draw_below) simp_all

text \<open>The constant \<^verbatim>\<open>1e-8\<close>.\<close>

lemma epsilon_bounds:
  "\<exists>c. round64 (1 / 10 ^ 8) = Fin c \<and> 0 < c \<and> c \<le> 1 / 4 \<and> 2 powi (- 27) \<le> c"
proof -
  have "\<bar>1 / 10 ^ 8 :: real\<bar> < 2 powi 0" by simp
  from round64_finite [OF this] obtain c where c: "round64 (1 / 10 ^ 8) = Fin c" by auto
  have "(2::real) powi (- 27) \<le> 1 / 10 ^ 8" by (simp add: power_int_minus field_simps)
  from round_to_ge_pow2 [OF this, of "- 1022" 53 1023] c have low: "2 powi (- 27) \<le> c"
    by (simp add: round64_def)
  moreover have "0 < (2::real) powi (- 27)" by simp
  ultimately have "0 < c" by linarith
  have "1 / 10 ^ 8 \<le> (2::real) powi (- 2)" by (simp add: power_int_minus field_simps)
  from round_to_le_pow2 [OF this, of "- 1022" 53 1023 c] c have "c \<le> 2 powi (- 2)"
    by (simp add: round64_def)
  then have "c \<le> 1 / 4" by (simp add: power_int_minus)
  with c \<open>0 < c\<close> low show ?thesis by blast
qed


lemma default_temperature: "\<exists>t. round64 (8 / 10) = Fin t \<and> 0 < t"
proof -
  have "\<bar>8 / 10 :: real\<bar> < 2 powi 0" by simp
  from round64_finite [OF this] obtain t where t: "round64 (8 / 10) = Fin t" by auto
  have "(2::real) powi (- 1) \<le> 8 / 10" by simp
  from round_to_ge_pow2 [OF this, of "- 1022" 53 1023] t have "2 powi (- 1) \<le> t"
    by (simp add: round64_def)
  then have "0 < t" by simp
  with t show ?thesis by blast
qed

lemma scale_zero_default: "scale [Fin 0] (round64 (8 / 10)) = [Fin 0]"
proof -
  obtain c where c: "round64 (1 / 10 ^ 8) = Fin c" "0 < c" "c \<le> 1 / 4"
    using epsilon_bounds by blast
  obtain t where t: "round64 (8 / 10) = Fin t" "0 < t"
    using default_temperature by blast
  show ?thesis
    unfolding scale_def t(1) c(1) using c(2) t(2) by (simp add: ieee_max_def)
qed

lemma sample_zero_default: "sample 0 [Fin 0] (round64 (8 / 10)) 40 = 0"
  unfolding sample_def scale_zero_default by (simp add: sample_eval)

lemma round_to_abs_le_pow2:
  assumes "\<bar>x\<bar> \<le> 2 powi b" "emin \<le> b" "round_to p emin emax x = Fin y" "0 < p"
  shows "\<bar>y\<bar> \<le> 2 powi b"
proof -
  have "x \<le> 2 powi b" using assms(1) by linarith
  from round_to_le_pow2 [OF this assms(2,3,4)] have 1: "y \<le> 2 powi b" .
  have 2: "- x \<le> 2 powi b" using assms(1) by linarith
  have 3: "round_to p emin emax (- x) = Fin (- y)"
    by (simp add: round_to_minus assms(3))
  from round_to_le_pow2 [OF 2 assms(2) 3 assms(4)] have "- y \<le> 2 powi b" .
  with 1 show ?thesis by linarith
qed

text \<open>A number of magnitude at most \<open>2 powi b\<close> rounds to such a number, of the same sign.\<close>

lemma round64_small:
  assumes "\<bar>x\<bar> \<le> 2 powi b" "- 1022 \<le> b" "b < 1023"
  shows "\<exists>y. round64 x = Fin y \<and> \<bar>y\<bar> \<le> 2 powi b \<and> (0 \<le> x \<longrightarrow> 0 \<le> y)"
proof -
  have "(2::real) powi b < 2 powi (b + 1)" by (rule pow2_strict_mono) simp
  with assms(1) have "\<bar>x\<bar> < 2 powi (b + 1)" by linarith
  from round64_finite [OF this] assms(3) obtain y where y: "round64 x = Fin y" "0 \<le> x \<longrightarrow> 0 \<le> y"
    by auto
  from round_to_abs_le_pow2 [OF assms(1), of "- 1022" 53 1023 y] y(1) assms(2)
  have "\<bar>y\<bar> \<le> 2 powi b" by (simp add: round64_def)
  with y show ?thesis by blast
qed

lemma round32_small:
  assumes "\<bar>x\<bar> \<le> 2 powi b" "- 126 \<le> b" "b < 127"
  shows "\<exists>y. round32 x = Fin y \<and> \<bar>y\<bar> \<le> 2 powi b \<and> (0 \<le> x \<longrightarrow> 0 \<le> y)"
proof -
  have "(2::real) powi b < 2 powi (b + 1)" by (rule pow2_strict_mono) simp
  with assms(1) have "\<bar>x\<bar> < 2 powi (b + 1)" by linarith
  moreover have "b + 1 \<le> 127" using assms(3) by simp
  ultimately have "\<exists>y. round_to 24 (- 126) 127 x = Fin y \<and> (0 \<le> x \<longrightarrow> 0 \<le> y) \<and> (x \<le> 0 \<longrightarrow> y \<le> 0)"
    by (rule round_to_finite) simp
  then obtain y where y: "round32 x = Fin y" "0 \<le> x \<longrightarrow> 0 \<le> y"
    by (auto simp: round32_def)
  from round_to_abs_le_pow2 [OF assms(1), of "- 126" 24 127 y] y(1) assms(2)
  have "\<bar>y\<bar> \<le> 2 powi b" by (simp add: round32_def)
  with y show ?thesis by blast
qed

section \<open>The generation engine\<close>

text \<open>
  \<^verbatim>\<open>GenerationOptions\<close>: each field may be absent. The response of the inference session is
  the tensor \<^verbatim>\<open>results.logits\<close> with \<^verbatim>\<open>dims = [1, seqLen, vocabSize]\<close> and a
  \<^verbatim>\<open>Float32Array\<close> of data, or the session raises.
\<close>

record options =
  opt_maxTokens :: "int option"
  opt_temperature :: "ieee option"
  opt_topK :: "int option"

record tensor =
  seqLen :: nat
  vocabDim :: nat
  tdata :: "ieee list"

text \<open>\<^verbatim>\<open>TypedArray.prototype.slice(start, end)\<close>: negative positions count from the end.\<close>

definition slice :: "'a list \<Rightarrow> int \<Rightarrow> int \<Rightarrow> 'a list" where
  "slice xs start stop =
     (let n = int (length xs);
          k = (if start < 0 then max (n + start) 0 else min start n);
          final = (if stop < 0 then max (n + stop) 0 else min stop n)
      in take (nat (final - k)) (drop (nat k) xs))"

definition lastTokenLogits :: "tensor \<Rightarrow> ieee list" where
  "lastTokenLogits results =
     (let startIdx = (int (seqLen results) - 1) * int (vocabDim results)
      in slice (tdata results) startIdx (startIdx + int (vocabDim results)))"

text \<open>
  The state of the engine and of its callers. Arrays live in the store \<open>heap\<close>, so that the
  array \<^verbatim>\<open>tokens\<close> of \<^verbatim>\<open>_generate\<close> and the array in the tokenizer's cache can be the same
  object. A promise of the mutex chain is either \<^verbatim>\<open>Promise.resolve()\<close> or
  \<^verbatim>\<open>p.then(() => next)\<close> for the \<^verbatim>\<open>next\<close> promise of some call; \<open>released\<close> holds the calls
  whose \<^verbatim>\<open>release\<close> has run.

  A call of \<^verbatim>\<open>generate\<close> is suspended at an \<^verbatim>\<open>await\<close>: on \<^verbatim>\<open>acquireMutex()\<close>
  (\<open>Waiting\<close>, with the promise \<^verbatim>\<open>current\<close> it waits for and its arguments), or on
  \<^verbatim>\<open>session.run(feeds)\<close> (\<open>Inferring\<close>, with the reference \<^verbatim>\<open>tokens\<close>, the list
  \<^verbatim>\<open>generatedTokens\<close>, the number of iterations left including this one, the temperature and
  \<open>topK\<close>); or it has settled (\<open>Done\<close>). A call is named by its position in \<open>tasks\<close>, the order
  of arrival.
\<close>

datatype promise = Resolved | Then promise nat

datatype task =
    Waiting promise jstring options
  | Inferring addr "int list" nat ieee int
  | Done "error + jstring"

datatype event = RunStart nat | RunEnd nat

record engine =
  tokenizer :: tokenizer
  heap :: heap
  isInitialized :: bool
  generationMutex :: promise
  released :: "nat set"
  tasks :: "task list"
  trace :: "event list"

fun settled :: "nat set \<Rightarrow> promise \<Rightarrow> bool" where
  "settled R Resolved = True"
| "settled R (Then p n) = (settled R p \<and> n \<in> R)"

text \<open>
  \<^verbatim>\<open>generate\<close> up to its first \<^verbatim>\<open>await\<close>: \<^verbatim>\<open>acquireMutex\<close> creates the promise \<^verbatim>\<open>next\<close> of this
  call, chains it to the mutex and returns a promise that follows \<^verbatim>\<open>current\<close>.
\<close>

definition acquireMutex :: "engine \<Rightarrow> promise \<times> engine" where
  "acquireMutex e =
     (let next = length (tasks e);
          current = generationMutex e
      in (current, e\<lparr>generationMutex := Then (generationMutex e) next\<rparr>))"

definition generate :: "jstring \<Rightarrow> options \<Rightarrow> engine \<Rightarrow> engine" where
  "generate prompt opts e =
     (let (current, e') = acquireMutex e
      in e'\<lparr>tasks := tasks e' @ [Waiting current prompt opts]\<rparr>)"

text \<open>
  The end of a call \<open>k\<close>: the \<^verbatim>\<open>finally\<close> clause runs \<^verbatim>\<open>release()\<close>, then the promise of
  \<^verbatim>\<open>generate\<close> settles with the text or the error.
\<close>

definition finish :: "nat \<Rightarrow> error + jstring \<Rightarrow> engine \<Rightarrow> engine" where
  "finish k res e = e\<lparr>released := insert k (released e), tasks := (tasks e)[k := Done res]\<rparr>"

text \<open>
  The head of the loop \<^verbatim>\<open>for (let i = 0; i < maxTokens; i++)\<close> with \<open>n\<close> iterations left:
  either the loop is over and \<^verbatim>\<open>_generate\<close> returns the decoded \<^verbatim>\<open>generatedTokens\<close>, or
  \<^verbatim>\<open>session.run\<close> is called and the call is suspended.
\<close>

definition loop_head :: "nat \<Rightarrow> addr \<Rightarrow> int list \<Rightarrow> nat \<Rightarrow> ieee \<Rightarrow> int \<Rightarrow> engine \<Rightarrow> engine" where
  "loop_head k tokens generatedTokens n temperature topK e =
     (if n = 0 then finish k (Inr (decode (tokenizer e) (map Num generatedTokens))) e
      else e\<lparr>tasks := (tasks e)[k := Inferring tokens generatedTokens n temperature topK],
             trace := trace e @ [RunStart k]\<rparr>)"

text \<open>
  Call \<open>k\<close> resumes after \<^verbatim>\<open>await this.acquireMutex()\<close> and runs \<^verbatim>\<open>_generate\<close> up to the first
  \<^verbatim>\<open>await\<close>: the defaults of the options (the literal \<^verbatim>\<open>0.8\<close> is the binary64 value nearest
  to \<open>8 / 10\<close>), the test of the session, \<^verbatim>\<open>encode(prompt)\<close>.
\<close>

definition begin_generate :: "nat \<Rightarrow> jstring \<Rightarrow> options \<Rightarrow> engine \<Rightarrow> engine" where
  "begin_generate k prompt opts e =
     (let maxTokens = (case opt_maxTokens opts of None \<Rightarrow> 100 | Some n \<Rightarrow> n);
          temperature = (case opt_temperature opts of None \<Rightarrow> round64 (8 / 10) | Some t \<Rightarrow> t);
          topK = (case opt_topK opts of None \<Rightarrow> 40 | Some j \<Rightarrow> j)
      in if \<not> isInitialized e then finish k (Inl EngineNotInitialized) e
         else (let (tokens, t', h') = encode (tokenizer e) (heap e) prompt
               in loop_head k tokens [] (nat maxTokens) temperature topK
                    (e\<lparr>tokenizer := t', heap := h'\<rparr>)))"

text \<open>
  Call \<open>k\<close> resumes after \<^verbatim>\<open>await this.session.run(feeds)\<close> with the outcome \<open>res\<close>: an error
  leaves \<^verbatim>\<open>_generate\<close> and \<^verbatim>\<open>generate\<close> through the \<^verbatim>\<open>finally\<close> clause; a response is sampled
  (\<open>u\<close> is the random draw) and the token pushed on \<^verbatim>\<open>generatedTokens\<close> and on \<^verbatim>\<open>tokens\<close>.
\<close>

definition resume_generate ::
  "nat \<Rightarrow> error + tensor \<Rightarrow> real \<Rightarrow> addr \<Rightarrow> int list \<Rightarrow> nat \<Rightarrow> ieee \<Rightarrow> int \<Rightarrow> engine \<Rightarrow> engine" where
  "resume_generate k res u tokens generatedTokens n temperature topK e =
     (let e1 = e\<lparr>trace := trace e @ [RunEnd k]\<rparr>
      in case res of
           Inl err \<Rightarrow> finish k (Inl err) e1
         | Inr results \<Rightarrow>
             (let nextToken = sample u (lastTokenLogits results) temperature topK;
                  e2 = e1\<lparr>heap := (heap e1)[tokens := heap e1 ! tokens @ [nextToken]]\<rparr>
              in loop_head k tokens (generatedTokens @ [nextToken]) (n - 1) temperature topK e2))"

text \<open>
  The moves of the system: a caller invokes \<^verbatim>\<open>generate\<close>; a call whose awaited mutex promise
  has settled resumes; a call whose inference has ended, with any outcome, resumes.
\<close>

inductive step :: "engine \<Rightarrow> engine \<Rightarrow> bool" where
  call: "step e (generate prompt opts e)"
| acquired: "k < length (tasks e) \<Longrightarrow> tasks e ! k = Waiting current prompt opts
     \<Longrightarrow> settled (released e) current \<Longrightarrow> step e (begin_generate k prompt opts e)"
| inferred: "k < length (tasks e) \<Longrightarrow> tasks e ! k = Inferring tokens generatedTokens n temperature topK
     \<Longrightarrow> 0 \<le> u \<Longrightarrow> u < 1
     \<Longrightarrow> step e (resume_generate k res u tokens generatedTokens n temperature topK e)"

definition new_engine :: "tokenizer \<Rightarrow> bool \<Rightarrow> engine" where
  "new_engine t ready =
     \<lparr> tokenizer = t, heap = [], isInitialized = ready, generationMutex = Resolved,
       released = {}, tasks = [], trace = [] \<rparr>"

inductive reachable :: "engine \<Rightarrow> engine \<Rightarrow> bool" where
  start: "reachable e0 e0"
| move: "reachable e0 e \<Longrightarrow> step e e' \<Longrightarrow> reachable e0 e'"

section \<open>A generation on a cached prompt\<close>

text \<open>
  One call of \<^verbatim>\<open>generate("ab", { maxTokens: 1 })\<close> on a ready engine with a fresh tokenizer,
  against a session that answers with one score per position.
\<close>

definition opts1 :: options where
  "opts1 = \<lparr> opt_maxTokens = Some 1, opt_temperature = None, opt_topK = None \<rparr>"

definition stub2 :: tensor where
  "stub2 = \<lparr> seqLen = 2, vocabDim = 1, tdata = [Fin 0, Fin 0] \<rparr>"

lemmas engine_eval = new_engine_def generate_def acquireMutex_def begin_generate_def
  resume_generate_def loop_head_def finish_def lastTokenLogits_def slice_def

lemma run_ab_called: "generate [97, 98] opts1 (new_engine new_tokenizer True) =
  \<lparr> tokenizer = new_tokenizer, heap = [], isInitialized = True, generationMutex = Then Resolved 0,
    released = {}, tasks = [Waiting Resolved [97, 98] opts1], trace = [] \<rparr>"
  by (simp add: engine_eval Let_def)

lemma run_ab_begun: "begin_generate 0 [97, 98] opts1 (generate [97, 98] opts1 (new_engine new_tokenizer True)) =
  \<lparr> tokenizer = new_tokenizer\<lparr>cache := [[97, 98] \<mapsto> 0]\<rparr>, heap = [[97, 98]], isInitialized = True,
    generationMutex = Then Resolved 0,
    released = {}, tasks = [Inferring 0 [] 1 (round64 (8 / 10)) 40], trace = [RunStart 0] \<rparr>"
  unfolding run_ab_called
  by (simp add: begin_generate_def loop_head_def opts1_def encode_def encode_ids_def
      bpe_loop_no_merges new_tokenizer_def utf8_encode_def utf8_cp_def is_scalar_def Let_def)

lemma stub2_sample: "sample 0 (lastTokenLogits stub2) (round64 (4 / 5)) 40 = 0"
  using sample_zero_default by (simp add: lastTokenLogits_def slice_def stub2_def)

lemma run_ab_ended: "resume_generate 0 (Inr stub2) 0 0 [] 1 (round64 (8 / 10)) 40
    (begin_generate 0 [97, 98] opts1 (generate [97, 98] opts1 (new_engine new_tokenizer True))) =
  \<lparr> tokenizer = new_tokenizer\<lparr>cache := [[97, 98] \<mapsto> 0]\<rparr>, heap = [[97, 98, 0]], isInitialized = True,
    generationMutex = Then Resolved 0,
    released = {0}, tasks = [Done (Inr [0])], trace = [RunStart 0, RunEnd 0] \<rparr>"
  unfolding run_ab_begun
  by (simp add: resume_generate_def loop_head_def finish_def stub2_sample Let_def decode_def
      new_tokenizer_def init_vocab_apply utf8_decode_def)

text \<open>
  C1 (cache transparency) fails after a generation. Before it, \<^verbatim>\<open>encode("ab")\<close> on the fresh
  tokenizer returns the array at reference 0, which holds \<open>[97, 98]\<close>. The run below is
  a run of the system; at its end the call has settled with its text, and \<^verbatim>\<open>encode("ab")\<close>
  returns the same array, which now holds \<open>[97, 98, 0]\<close>: the prompt's encoding followed
  by the sampled token, while the encoding of the text under the merge table is still
  \<open>[97, 98]\<close>.
\<close>

theorem generate_changes_cached_encoding:
  "reachable (new_engine new_tokenizer True)
     (resume_generate 0 (Inr stub2) 0 0 [] 1 (round64 (8 / 10)) 40
       (begin_generate 0 [97, 98] opts1 (generate [97, 98] opts1 (new_engine new_tokenizer True))))
   \<and> fst (encode new_tokenizer [] [97, 98]) = 0
   \<and> snd (snd (encode new_tokenizer [] [97, 98])) ! 0 = [97, 98]
   \<and> (case resume_generate 0 (Inr stub2) 0 0 [] 1 (round64 (8 / 10)) 40
         (begin_generate 0 [97, 98] opts1 (generate [97, 98] opts1 (new_engine new_tokenizer True)))
       of e \<Rightarrow> tasks e = [Done (Inr [0])]
          \<and> fst (encode (tokenizer e) (heap e) [97, 98]) = 0
          \<and> snd (snd (encode (tokenizer e) (heap e) [97, 98])) ! 0 = [97, 98, 0]
          \<and> encode_ids (tokenizer e) [97, 98] = [97, 98])"
proof -
  let ?e0 = "new_engine new_tokenizer True"
  let ?e1 = "generate [97, 98] opts1 ?e0"
  let ?e2 = "begin_generate 0 [97, 98] opts1 ?e1"
  let ?e3 = "resume_generate 0 (Inr stub2) 0 0 [] 1 (round64 (8 / 10)) 40 ?e2"
  have "step ?e0 ?e1" by (rule step.call)
  moreover have "step ?e1 ?e2"
    by (rule step.acquired [where current = Resolved]) (simp_all add: run_ab_called)
  moreover have "step ?e2 ?e3"
    by (rule step.inferred) (simp_all add: run_ab_begun)
  ultimately have r: "reachable ?e0 ?e3"
    using reachable.start reachable.move by blast
  have a: "encode new_tokenizer [] [97, 98] = (0, new_tokenizer\<lparr>cache := [[97, 98] \<mapsto> 0]\<rparr>, [[97, 98]])"
    by (simp add: encode_def encode_ids_def bpe_loop_no_merges new_tokenizer_def utf8_encode_def
        utf8_cp_def is_scalar_def Let_def)
  have b: "encode (new_tokenizer\<lparr>cache := [[97, 98] \<mapsto> 0]\<rparr>) [[97, 98, 0]] [97, 98]
      = (0, new_tokenizer\<lparr>cache := [[97, 98] \<mapsto> 0]\<rparr>, [[97, 98, 0]])"
    by (simp add: encode_def)
  have c: "encode_ids (new_tokenizer\<lparr>cache := [[97, 98] \<mapsto> 0]\<rparr>) [97, 98] = [97, 98]"
    by (simp add: encode_ids_def bpe_loop_no_merges new_tokenizer_def utf8_encode_def
        utf8_cp_def is_scalar_def)
  show ?thesis
    using r unfolding run_ab_ended by (simp add: a b c)
qed

section \<open>Serialization of the generations\<close>

text \<open>The mutex promise after \<open>n\<close> calls, and when it has settled.\<close>

fun chain :: "nat \<Rightarrow> promise" where
  "chain 0 = Resolved"
| "chain (Suc n) = Then (chain n) n"

lemma settled_chain: "settled R (chain n) \<longleftrightarrow> (\<forall>j<n. j \<in> R)"
  by (induction n) (auto simp: less_Suc_eq)

fun call_of :: "event \<Rightarrow> nat" where
  "call_of (RunStart k) = k"
| "call_of (RunEnd k) = k"

fun is_inferring :: "task \<Rightarrow> bool" where
  "is_inferring (Inferring tokens generatedTokens n temperature topK) = True"
| "is_inferring t = False"

fun is_done :: "task \<Rightarrow> bool" where
  "is_done (Done res) = True"
| "is_done t = False"

fun task_ok :: "nat set \<Rightarrow> nat \<Rightarrow> task \<Rightarrow> bool" where
  "task_ok R k (Waiting current prompt opts) = (current = chain k \<and> k \<notin> R)"
| "task_ok R k (Inferring tokens generatedTokens n temperature topK) = (k \<notin> R \<and> (\<forall>j<k. j \<in> R))"
| "task_ok R k (Done res) = (k \<in> R)"

definition invariant :: "engine \<Rightarrow> bool" where
  "invariant e \<longleftrightarrow>
     generationMutex e = chain (length (tasks e))
     \<and> (\<forall>k \<in> released e. k < length (tasks e) \<and> (\<forall>j<k. j \<in> released e))
     \<and> (\<forall>k < length (tasks e). task_ok (released e) k (tasks e ! k))
     \<and> (\<forall>ev \<in> set (trace e). \<forall>j < call_of ev. j \<in> released e)
     \<and> sorted (map call_of (trace e))"

lemma invariant_new: "invariant (new_engine t ready)"
  by (simp add: invariant_def new_engine_def)

lemma invariant_generate: "invariant e \<Longrightarrow> invariant (generate prompt opts e)"
  unfolding invariant_def generate_def acquireMutex_def Let_def
  by (auto simp: nth_append less_Suc_eq)

lemma invariant_store:
  "invariant (e\<lparr>tokenizer := t, heap := h\<rparr>) = invariant e"
  "invariant (e\<lparr>heap := h\<rparr>) = invariant e"
  "invariant (e\<lparr>tokenizer := t\<rparr>) = invariant e"
  by (simp_all add: invariant_def)

lemma task_ok_insert:
  "task_ok R k' t \<Longrightarrow> k' \<noteq> k \<Longrightarrow> task_ok (insert k R) k' t"
  by (cases t) auto

lemma invariant_finish:
  assumes "invariant e" "k < length (tasks e)" "k \<notin> released e" "\<forall>j<k. j \<in> released e"
  shows "invariant (finish k res e)"
  using assms unfolding invariant_def finish_def
  by (auto simp: nth_list_update task_ok_insert)

lemma invariant_event:
  assumes "invariant e" "k \<notin> released e" "\<forall>j<k. j \<in> released e" "call_of ev = k"
  shows "invariant (e\<lparr>trace := trace e @ [ev]\<rparr>)"
proof -
  have "\<forall>x \<in> set (trace e). call_of x \<le> k"
  proof (rule ballI, rule ccontr)
    fix x assume "x \<in> set (trace e)" "\<not> call_of x \<le> k"
    with assms(1) have "k \<in> released e" by (auto simp: invariant_def)
    with assms(2) show False by simp
  qed
  with assms show ?thesis
    by (auto simp: invariant_def sorted_append)
qed

lemma invariant_inferring:
  assumes "invariant e" "k < length (tasks e)" "k \<notin> released e" "\<forall>j<k. j \<in> released e"
  shows "invariant (e\<lparr>tasks := (tasks e)[k := Inferring tokens generatedTokens n temperature topK]\<rparr>)"
  using assms unfolding invariant_def
  by (auto simp: nth_list_update)


lemma invariant_loop_head:
  assumes "invariant e" "k < length (tasks e)" "k \<notin> released e" "\<forall>j<k. j \<in> released e"
  shows "invariant (loop_head k tokens generatedTokens n temperature topK e)"
proof (cases "n = 0")
  case True
  then show ?thesis using assms by (simp add: loop_head_def invariant_finish)
next
  case False
  let ?e1 = "e\<lparr>tasks := (tasks e)[k := Inferring tokens generatedTokens n temperature topK]\<rparr>"
  have "invariant ?e1" using assms by (rule invariant_inferring)
  then have "invariant (?e1\<lparr>trace := trace ?e1 @ [RunStart k]\<rparr>)"
    using assms by (intro invariant_event) simp_all
  with False show ?thesis by (simp add: loop_head_def)
qed

lemma invariant_begin:
  assumes "invariant e" "k < length (tasks e)" "tasks e ! k = Waiting current prompt opts"
    "settled (released e) current"
  shows "invariant (begin_generate k prompt opts e)"
proof -
  from assms(1-3) have w: "current = chain k" "k \<notin> released e"
    by (auto simp: invariant_def dest!: spec [of _ k])
  with assms(4) have before: "\<forall>j<k. j \<in> released e"
    by (simp add: settled_chain)
  show ?thesis
  proof (cases "isInitialized e")
    case False
    then show ?thesis
      using assms(1,2) w(2) before by (simp add: begin_generate_def invariant_finish)
  next
    case True
    obtain tokens t' h' where enc: "encode (tokenizer e) (heap e) prompt = (tokens, t', h')"
      by (cases "encode (tokenizer e) (heap e) prompt") auto
    have "invariant (e\<lparr>tokenizer := t', heap := h'\<rparr>)"
      using assms(1) by (simp add: invariant_store)
    then have "invariant (loop_head k tokens [] n temperature topK (e\<lparr>tokenizer := t', heap := h'\<rparr>))"
      for n temperature topK
      using assms(2) w(2) before by (intro invariant_loop_head) simp_all
    with True enc show ?thesis by (simp add: begin_generate_def Let_def)
  qed
qed

lemma invariant_resume:
  assumes "invariant e" "k < length (tasks e)"
    "tasks e ! k = Inferring tokens generatedTokens n temperature topK"
  shows "invariant (resume_generate k res u tokens generatedTokens n temperature topK e)"
proof -
  from assms have w: "k \<notin> released e" "\<forall>j<k. j \<in> released e"
    by (auto simp: invariant_def dest!: spec [of _ k])
  let ?e1 = "e\<lparr>trace := trace e @ [RunEnd k]\<rparr>"
  have e1: "invariant ?e1" using assms(1) w by (intro invariant_event) simp_all
  show ?thesis
  proof (cases res)
    case (Inl err)
    have "invariant (finish k (Inl err) ?e1)"
      using e1 assms(2) w by (intro invariant_finish) simp_all
    with Inl show ?thesis by (simp add: resume_generate_def)
  next
    case (Inr results)
    have "invariant (?e1\<lparr>heap := h\<rparr>)" for h
      using e1 by (simp add: invariant_store)
    then have "invariant (loop_head k tokens gen m temperature topK (?e1\<lparr>heap := h\<rparr>))" for gen m h
      using assms(2) w by (intro invariant_loop_head) simp_all
    with Inr show ?thesis by (simp add: resume_generate_def Let_def)
  qed
qed

lemma invariant_step: "step e e' \<Longrightarrow> invariant e \<Longrightarrow> invariant e'"
  by (induction rule: step.induct)
     (simp_all add: invariant_generate invariant_begin invariant_resume)

lemma invariant_reachable: "reachable e0 e \<Longrightarrow> invariant e0 \<Longrightarrow> invariant e"
  by (induction rule: reachable.induct) (auto intro: invariant_step)

lemma invariant_one_inferring:
  assumes "invariant e" "i < length (tasks e)" "j < length (tasks e)"
    "is_inferring (tasks e ! i)" "is_inferring (tasks e ! j)"
  shows "i = j"
proof (rule ccontr)
  assume "i \<noteq> j"
  have ok: "task_ok (released e) i (tasks e ! i)" "task_ok (released e) j (tasks e ! j)"
    using assms(1-3) by (simp_all add: invariant_def)
  from assms(4) ok(1) have i: "i \<notin> released e" "\<forall>m<i. m \<in> released e"
    by (cases "tasks e ! i"; simp)+
  from assms(5) ok(2) have j: "j \<notin> released e" "\<forall>m<j. m \<in> released e"
    by (cases "tasks e ! j"; simp)+
  from \<open>i \<noteq> j\<close> i j show False by (metis nat_neq_iff)
qed

lemma invariant_earlier_done:
  assumes "invariant e" "k < length (tasks e)" "is_inferring (tasks e ! k)" "j < k"
  shows "is_done (tasks e ! j)"
proof -
  have "task_ok (released e) k (tasks e ! k)" using assms(1,2) by (simp add: invariant_def)
  with assms(3,4) have "j \<in> released e" by (cases "tasks e ! k") simp_all
  moreover have "task_ok (released e) j (tasks e ! j)"
    using assms(1,2,4) by (simp add: invariant_def)
  ultimately show ?thesis by (cases "tasks e ! j") simp_all
qed

text \<open>The log of inference invocations only grows at its end.\<close>

lemma loop_head_trace:
  "\<exists>evs. trace (loop_head k tokens generatedTokens n temperature topK e) = trace e @ evs"
  by (simp add: loop_head_def finish_def)

lemma step_trace_extends: "step e e' \<Longrightarrow> \<exists>evs. trace e' = trace e @ evs"
proof (induction rule: step.induct)
  case (call e prompt opts)
  show ?case by (simp add: generate_def acquireMutex_def Let_def)
next
  case (acquired k e current prompt opts)
  show ?case
  proof (cases "isInitialized e")
    case False
    then show ?thesis by (simp add: begin_generate_def finish_def)
  next
    case True
    obtain tokens t' h' where enc: "encode (tokenizer e) (heap e) prompt = (tokens, t', h')"
      by (cases "encode (tokenizer e) (heap e) prompt") auto
    from loop_head_trace [of k tokens "[]" _ _ _ "e\<lparr>tokenizer := t', heap := h'\<rparr>"]
    show ?thesis using True enc by (simp add: begin_generate_def Let_def)
  qed
next
  case (inferred k e tokens generatedTokens n temperature topK u res)
  show ?case
  proof (cases res)
    case (Inl err)
    then show ?thesis by (simp add: resume_generate_def finish_def)
  next
    case (Inr results)
    let ?e1 = "e\<lparr>trace := trace e @ [RunEnd k]\<rparr>"
    have "\<exists>evs. trace (loop_head k tokens gen m temperature topK (?e1\<lparr>heap := h\<rparr>))
        = (trace e @ [RunEnd k]) @ evs" for gen m h
      using loop_head_trace [of k tokens gen m temperature topK "?e1\<lparr>heap := h\<rparr>"] by simp
    then have "\<exists>evs. trace (loop_head k tokens gen m temperature topK (?e1\<lparr>heap := h\<rparr>))
        = trace e @ evs" for gen m h
      by (metis append.assoc)
    with Inr show ?thesis by (simp add: resume_generate_def Let_def)
  qed
qed

text \<open>
  C2 (mutex serialization). In every state that the system reaches from a new engine, by
  any interleaving of calls of \<^verbatim>\<open>generate\<close>, resumptions and inference outcomes: the log of
  the inference invocations (start and end, in the order they happen) is ordered by the
  arrival number of the calls, so no invocation of a later call starts before the last
  invocation of an earlier call has ended; at most one call is inside an inference
  invocation; and when a call is, every call that arrived before it has settled.
\<close>

theorem generations_serialized:
  assumes "reachable (new_engine t ready) e"
  shows "sorted (map call_of (trace e))
    \<and> (\<forall>i j. i < length (tasks e) \<and> j < length (tasks e)
          \<and> is_inferring (tasks e ! i) \<and> is_inferring (tasks e ! j) \<longrightarrow> i = j)
    \<and> (\<forall>k j. k < length (tasks e) \<and> is_inferring (tasks e ! k) \<and> j < k \<longrightarrow> is_done (tasks e ! j))"
proof -
  have inv: "invariant e"
    using assms invariant_new by (rule invariant_reachable)
  then have "sorted (map call_of (trace e))" by (simp add: invariant_def)
  moreover have "\<forall>i j. i < length (tasks e) \<and> j < length (tasks e)
          \<and> is_inferring (tasks e ! i) \<and> is_inferring (tasks e ! j) \<longrightarrow> i = j"
    using invariant_one_inferring [OF inv] by blast
  moreover have "\<forall>k j. k < length (tasks e) \<and> is_inferring (tasks e ! k) \<and> j < k \<longrightarrow> is_done (tasks e ! j)"
    using invariant_earlier_done [OF inv] by blast
  ultimately show ?thesis by blast
qed

text \<open>
  Two calls, \<^verbatim>\<open>generate("ab", { maxTokens: 1 })\<close> then \<^verbatim>\<open>generate("cd", { maxTokens: 1 })\<close>,
  both made before the first resumes; \<open>two_calls_running\<close> is the state in which the first
  call awaits its inference.
\<close>

definition two_calls_running :: engine where
  "two_calls_running =
     begin_generate 0 [97, 98] opts1
       (generate [99, 100] opts1 (generate [97, 98] opts1 (new_engine new_tokenizer True)))"

lemma two_calls_called:
  "generate [99, 100] opts1 (generate [97, 98] opts1 (new_engine new_tokenizer True)) =
   \<lparr> tokenizer = new_tokenizer, heap = [], isInitialized = True,
     generationMutex = Then (Then Resolved 0) 1, released = {},
     tasks = [Waiting Resolved [97, 98] opts1, Waiting (Then Resolved 0) [99, 100] opts1],
     trace = [] \<rparr>"
  unfolding run_ab_called by (simp add: generate_def acquireMutex_def Let_def)

lemma two_calls_running_eq:
  "two_calls_running =
   \<lparr> tokenizer = new_tokenizer\<lparr>cache := [[97, 98] \<mapsto> 0]\<rparr>, heap = [[97, 98]], isInitialized = True,
     generationMutex = Then (Then Resolved 0) 1, released = {},
     tasks = [Inferring 0 [] 1 (round64 (8 / 10)) 40, Waiting (Then Resolved 0) [99, 100] opts1],
     trace = [RunStart 0] \<rparr>"
  unfolding two_calls_running_def two_calls_called
  by (simp add: begin_generate_def loop_head_def opts1_def encode_def encode_ids_def
      bpe_loop_no_merges new_tokenizer_def utf8_encode_def utf8_cp_def is_scalar_def Let_def)

lemma two_calls_running_reachable: "reachable (new_engine new_tokenizer True) two_calls_running"
proof -
  let ?e0 = "new_engine new_tokenizer True"
  let ?e1 = "generate [97, 98] opts1 ?e0"
  let ?e2 = "generate [99, 100] opts1 ?e1"
  have "step ?e0 ?e1" by (rule step.call)
  moreover have "step ?e1 ?e2" by (rule step.call)
  moreover have "step ?e2 two_calls_running"
    unfolding two_calls_running_def
    by (rule step.acquired [where current = Resolved]) (simp_all add: two_calls_called)
  ultimately show ?thesis
    using reachable.start reachable.move by blast
qed

lemma two_calls_first_ended:
  "resume_generate 0 (Inr stub2) 0 0 [] 1 (round64 (8 / 10)) 40 two_calls_running =
   \<lparr> tokenizer = new_tokenizer\<lparr>cache := [[97, 98] \<mapsto> 0]\<rparr>, heap = [[97, 98, 0]], isInitialized = True,
     generationMutex = Then (Then Resolved 0) 1, released = {0},
     tasks = [Done (Inr [0]), Waiting (Then Resolved 0) [99, 100] opts1],
     trace = [RunStart 0, RunEnd 0] \<rparr>"
  unfolding two_calls_running_eq
  by (simp add: resume_generate_def loop_head_def finish_def stub2_sample Let_def decode_def
      new_tokenizer_def init_vocab_apply utf8_decode_def)

lemma two_calls_second_begun:
  "begin_generate 1 [99, 100] opts1
     (resume_generate 0 (Inr stub2) 0 0 [] 1 (round64 (8 / 10)) 40 two_calls_running) =
   \<lparr> tokenizer = new_tokenizer\<lparr>cache := [[97, 98] \<mapsto> 0, [99, 100] \<mapsto> 1]\<rparr>,
     heap = [[97, 98, 0], [99, 100]], isInitialized = True,
     generationMutex = Then (Then Resolved 0) 1, released = {0},
     tasks = [Done (Inr [0]), Inferring 1 [] 1 (round64 (8 / 10)) 40],
     trace = [RunStart 0, RunEnd 0, RunStart 1] \<rparr>"
  unfolding two_calls_first_ended
  by (simp add: begin_generate_def loop_head_def opts1_def encode_def encode_ids_def
      bpe_loop_no_merges new_tokenizer_def utf8_encode_def utf8_cp_def is_scalar_def Let_def)

theorem generations_serialized_witness:
  "reachable (new_engine new_tokenizer True)
     (begin_generate 1 [99, 100] opts1
       (resume_generate 0 (Inr stub2) 0 0 [] 1 (round64 (8 / 10)) 40 two_calls_running))
   \<and> trace (begin_generate 1 [99, 100] opts1
       (resume_generate 0 (Inr stub2) 0 0 [] 1 (round64 (8 / 10)) 40 two_calls_running))
     = [RunStart 0, RunEnd 0, RunStart 1]
   \<and> sorted (map call_of (trace (begin_generate 1 [99, 100] opts1
       (resume_generate 0 (Inr stub2) 0 0 [] 1 (round64 (8 / 10)) 40 two_calls_running))))"
proof -
  let ?e3 = "two_calls_running"
  let ?e4 = "resume_generate 0 (Inr stub2) 0 0 [] 1 (round64 (8 / 10)) 40 ?e3"
  let ?e5 = "begin_generate 1 [99, 100] opts1 ?e4"
  have "step ?e3 ?e4"
    by (rule step.inferred) (simp_all add: two_calls_running_eq)
  moreover have "step ?e4 ?e5"
    by (rule step.acquired [where current = "Then Resolved 0"])
       (unfold two_calls_first_ended, simp_all)
  ultimately have r: "reachable (new_engine new_tokenizer True) ?e5"
    using two_calls_running_reachable reachable.move by blast
  have t: "trace ?e5 = [RunStart 0, RunEnd 0, RunStart 1]"
    unfolding two_calls_second_begun by simp
  show ?thesis
    using generations_serialized [OF r] r t by blast
qed


section \<open>A failing inference\<close>

lemma resume_failed:
  "resume_generate k (Inl err) u tokens generatedTokens n temperature topK e =
     e\<lparr>trace := trace e @ [RunEnd k], released := insert k (released e),
       tasks := (tasks e)[k := Done (Inl err)]\<rparr>"
  by (simp add: resume_generate_def finish_def)

lemma invariant_next_waiting:
  assumes "invariant e" "Suc k < length (tasks e)" "k \<notin> released e"
  shows "\<exists>prompt opts. tasks e ! Suc k = Waiting (chain (Suc k)) prompt opts"
proof -
  from assms(1,2) have ok: "task_ok (released e) (Suc k) (tasks e ! Suc k)"
    by (simp add: invariant_def)
  have "Suc k \<notin> released e"
  proof
    assume "Suc k \<in> released e"
    with assms(1) have "\<forall>j<Suc k. j \<in> released e" by (auto simp: invariant_def)
    with assms(3) show False by simp
  qed
  with ok assms(3) show ?thesis
    by (cases "tasks e ! Suc k") auto
qed

text \<open>
  What the failing call returns, and the mutex. In a state that the system reaches, let
  call \<open>k\<close> await an inference, at any iteration and with any tokens generated so far, and
  let the session raise \<open>err\<close>. The resumption is a move of the system; after it the call
  has settled with the error \<open>err\<close> and nothing else (no text is decoded from
  \<^verbatim>\<open>generatedTokens\<close>), its \<^verbatim>\<open>release\<close> has run, and the next call in the queue, if there is
  one, waits on a promise that has settled and can resume; if there is none, the mutex
  promise itself has settled. The resumption writes to no array: what the earlier
  iterations pushed on \<^verbatim>\<open>tokens\<close> is still there.
\<close>

lemma inference_failure_releases:
  assumes "reachable (new_engine t ready) e" and "k < length (tasks e)"
    and "tasks e ! k = Inferring tokens generatedTokens n temperature topK"
    and "0 \<le> u" and "u < 1"
  shows "(let e' = resume_generate k (Inl err) u tokens generatedTokens n temperature topK e
          in step e e'
             \<and> tasks e' ! k = Done (Inl err)
             \<and> k \<in> released e'
             \<and> tokenizer e' = tokenizer e \<and> heap e' = heap e
             \<and> (Suc k < length (tasks e') \<longrightarrow>
                  (\<exists>current prompt opts. tasks e' ! Suc k = Waiting current prompt opts
                     \<and> settled (released e') current
                     \<and> step e' (begin_generate (Suc k) prompt opts e')))
             \<and> (Suc k = length (tasks e') \<longrightarrow> settled (released e') (generationMutex e')))"
proof -
  define e' where "e' = resume_generate k (Inl err) u tokens generatedTokens n temperature topK e"
  have inv: "invariant e"
    using assms(1) invariant_new by (rule invariant_reachable)
  from inv assms(2,3) have w: "k \<notin> released e" "\<forall>j<k. j \<in> released e"
    by (auto simp: invariant_def dest!: spec [of _ k])
  have e'_eq: "e' = e\<lparr>trace := trace e @ [RunEnd k], released := insert k (released e),
       tasks := (tasks e)[k := Done (Inl err)]\<rparr>"
    by (simp add: e'_def resume_failed)
  have s: "step e e'"
    unfolding e'_def using assms(2-5) by (rule step.inferred)
  have d: "tasks e' ! k = Done (Inl err)" "k \<in> released e'" "tokenizer e' = tokenizer e"
    "heap e' = heap e"
    using assms(2) by (simp_all add: e'_eq)
  have all: "\<forall>j<Suc k. j \<in> released e'"
    using w(2) by (auto simp: e'_eq less_Suc_eq)
  have nxt: "Suc k < length (tasks e') \<longrightarrow>
      (\<exists>current prompt opts. tasks e' ! Suc k = Waiting current prompt opts
         \<and> settled (released e') current
         \<and> step e' (begin_generate (Suc k) prompt opts e'))"
  proof
    assume l: "Suc k < length (tasks e')"
    then have "Suc k < length (tasks e)" by (simp add: e'_eq)
    from invariant_next_waiting [OF inv this w(1)] obtain prompt opts
      where "tasks e ! Suc k = Waiting (chain (Suc k)) prompt opts" by blast
    then have t: "tasks e' ! Suc k = Waiting (chain (Suc k)) prompt opts"
      by (simp add: e'_eq)
    have st: "settled (released e') (chain (Suc k))"
      using all by (simp only: settled_chain)
    from l t st have "step e' (begin_generate (Suc k) prompt opts e')"
      by (rule step.acquired)
    with t st show "\<exists>current prompt opts. tasks e' ! Suc k = Waiting current prompt opts
         \<and> settled (released e') current
         \<and> step e' (begin_generate (Suc k) prompt opts e')" by blast
  qed
  have free: "Suc k = length (tasks e') \<longrightarrow> settled (released e') (generationMutex e')"
  proof
    assume l: "Suc k = length (tasks e')"
    from inv have "generationMutex e' = chain (length (tasks e'))"
      by (simp add: invariant_def e'_eq)
    with l all show "settled (released e') (generationMutex e')"
      by (metis settled_chain)
  qed
  show ?thesis
    unfolding Let_def e'_def [symmetric] using s d nxt free by blast
qed

text \<open>
  A generation that fails at its second inference:
  \<^verbatim>\<open>generate("ab", { maxTokens: 2 })\<close> on a ready engine with a fresh tokenizer; the session
  answers the first invocation, token 0 is sampled and pushed on \<^verbatim>\<open>generatedTokens\<close> and on
  \<^verbatim>\<open>tokens\<close>, and the session raises at the second invocation.
\<close>

definition opts2 :: options where
  "opts2 = \<lparr> opt_maxTokens = Some 2, opt_temperature = None, opt_topK = None \<rparr>"

definition first_inference :: engine where
  "first_inference =
     begin_generate 0 [97, 98] opts2 (generate [97, 98] opts2 (new_engine new_tokenizer True))"

definition second_inference :: engine where
  "second_inference = resume_generate 0 (Inr stub2) 0 0 [] 2 (round64 (8 / 10)) 40 first_inference"

definition failed_generation :: engine where
  "failed_generation =
     resume_generate 0 (Inl SessionError) 0 0 [0] 1 (round64 (8 / 10)) 40 second_inference"

lemma failing_run_called: "generate [97, 98] opts2 (new_engine new_tokenizer True) =
  \<lparr> tokenizer = new_tokenizer, heap = [], isInitialized = True, generationMutex = Then Resolved 0,
    released = {}, tasks = [Waiting Resolved [97, 98] opts2], trace = [] \<rparr>"
  by (simp add: engine_eval Let_def)

lemma first_inference_eq: "first_inference =
  \<lparr> tokenizer = new_tokenizer\<lparr>cache := [[97, 98] \<mapsto> 0]\<rparr>, heap = [[97, 98]], isInitialized = True,
    generationMutex = Then Resolved 0,
    released = {}, tasks = [Inferring 0 [] 2 (round64 (8 / 10)) 40], trace = [RunStart 0] \<rparr>"
  unfolding first_inference_def failing_run_called
  by (simp add: begin_generate_def loop_head_def opts2_def encode_def encode_ids_def
      bpe_loop_no_merges new_tokenizer_def utf8_encode_def utf8_cp_def is_scalar_def Let_def)

lemma second_inference_eq: "second_inference =
  \<lparr> tokenizer = new_tokenizer\<lparr>cache := [[97, 98] \<mapsto> 0]\<rparr>, heap = [[97, 98, 0]], isInitialized = True,
    generationMutex = Then Resolved 0,
    released = {}, tasks = [Inferring 0 [0] 1 (round64 (8 / 10)) 40],
    trace = [RunStart 0, RunEnd 0, RunStart 0] \<rparr>"
  unfolding second_inference_def first_inference_eq
  by (simp add: resume_generate_def loop_head_def stub2_sample Let_def)

lemma failed_generation_eq: "failed_generation =
  \<lparr> tokenizer = new_tokenizer\<lparr>cache := [[97, 98] \<mapsto> 0]\<rparr>, heap = [[97, 98, 0]], isInitialized = True,
    generationMutex = Then Resolved 0,
    released = {0}, tasks = [Done (Inl SessionError)],
    trace = [RunStart 0, RunEnd 0, RunStart 0, RunEnd 0] \<rparr>"
  unfolding failed_generation_def second_inference_eq
  by (simp add: resume_failed)

lemma failed_generation_reachable: "reachable (new_engine new_tokenizer True) failed_generation"
proof -
  let ?e0 = "new_engine new_tokenizer True"
  let ?e1 = "generate [97, 98] opts2 ?e0"
  have "step ?e0 ?e1" by (rule step.call)
  moreover have "step ?e1 first_inference"
    unfolding first_inference_def
    by (rule step.acquired [where current = Resolved]) (simp_all add: failing_run_called)
  moreover have "step first_inference second_inference"
    unfolding second_inference_def
    by (rule step.inferred) (simp_all add: first_inference_eq)
  moreover have "step second_inference failed_generation"
    unfolding failed_generation_def
    by (rule step.inferred) (simp_all add: second_inference_eq)
  ultimately show ?thesis
    using reachable.start reachable.move by blast
qed

lemma retry_called: "generate [97, 98] opts1 failed_generation =
  \<lparr> tokenizer = new_tokenizer\<lparr>cache := [[97, 98] \<mapsto> 0]\<rparr>, heap = [[97, 98, 0]], isInitialized = True,
    generationMutex = Then (Then Resolved 0) 1,
    released = {0}, tasks = [Done (Inl SessionError), Waiting (Then Resolved 0) [97, 98] opts1],
    trace = [RunStart 0, RunEnd 0, RunStart 0, RunEnd 0] \<rparr>"
  unfolding failed_generation_eq by (simp add: generate_def acquireMutex_def Let_def)

lemma retry_begun: "begin_generate 1 [97, 98] opts1 (generate [97, 98] opts1 failed_generation) =
  \<lparr> tokenizer = new_tokenizer\<lparr>cache := [[97, 98] \<mapsto> 0]\<rparr>, heap = [[97, 98, 0]], isInitialized = True,
    generationMutex = Then (Then Resolved 0) 1,
    released = {0}, tasks = [Done (Inl SessionError), Inferring 0 [] 1 (round64 (8 / 10)) 40],
    trace = [RunStart 0, RunEnd 0, RunStart 0, RunEnd 0, RunStart 1] \<rparr>"
  unfolding retry_called
  by (simp add: begin_generate_def loop_head_def opts1_def encode_def Let_def)

text \<open>
  C8 (inference failure) fails for the partial tokens. The run below is a run of the
  system. When the session raises at the second invocation, the call settles with the
  error and its \<^verbatim>\<open>release\<close> has run, as the claim says; but the token 0 that the first
  iteration sampled is not discarded: \<^verbatim>\<open>tokens\<close> is the array that \<^verbatim>\<open>encode\<close> cached for the
  prompt, so after the failure \<^verbatim>\<open>encode("ab")\<close> returns \<open>[97, 98, 0]\<close>, while the encoding of
  the text is \<open>[97, 98]\<close>, and the next \<^verbatim>\<open>generate("ab", { maxTokens: 1 })\<close> calls the session
  on the array at reference 0, which holds \<open>[97, 98, 0]\<close>.
\<close>

theorem failed_generation_keeps_partial_tokens:
  "reachable (new_engine new_tokenizer True)
     (begin_generate 1 [97, 98] opts1 (generate [97, 98] opts1 failed_generation))
   \<and> tasks second_inference = [Inferring 0 [0] 1 (round64 (8 / 10)) 40]
   \<and> tasks failed_generation = [Done (Inl SessionError)]
   \<and> released failed_generation = {0}
   \<and> encode_ids (tokenizer failed_generation) [97, 98] = [97, 98]
   \<and> fst (encode (tokenizer failed_generation) (heap failed_generation) [97, 98]) = 0
   \<and> snd (snd (encode (tokenizer failed_generation) (heap failed_generation) [97, 98])) ! 0
       = [97, 98, 0]
   \<and> tasks (begin_generate 1 [97, 98] opts1 (generate [97, 98] opts1 failed_generation)) ! 1
       = Inferring 0 [] 1 (round64 (8 / 10)) 40
   \<and> heap (begin_generate 1 [97, 98] opts1 (generate [97, 98] opts1 failed_generation)) ! 0
       = [97, 98, 0]"
proof -
  let ?e5 = "generate [97, 98] opts1 failed_generation"
  let ?e6 = "begin_generate 1 [97, 98] opts1 ?e5"
  have "step failed_generation ?e5" by (rule step.call)
  moreover have "step ?e5 ?e6"
    by (rule step.acquired [where current = "Then Resolved 0"]) (simp_all add: retry_called)
  ultimately have r: "reachable (new_engine new_tokenizer True) ?e6"
    using failed_generation_reachable reachable.move by blast
  have a: "tasks second_inference = [Inferring 0 [0] 1 (round64 (8 / 10)) 40]"
    unfolding second_inference_eq by simp
  have b: "tasks failed_generation = [Done (Inl SessionError)]" "released failed_generation = {0}"
    unfolding failed_generation_eq by simp_all
  have c: "encode_ids (tokenizer failed_generation) [97, 98] = [97, 98]"
    unfolding failed_generation_eq
    by (simp add: encode_ids_def bpe_loop_no_merges new_tokenizer_def utf8_encode_def
        utf8_cp_def is_scalar_def)
  have d: "encode (tokenizer failed_generation) (heap failed_generation) [97, 98]
      = (0, new_tokenizer\<lparr>cache := [[97, 98] \<mapsto> 0]\<rparr>, [[97, 98, 0]])"
    unfolding failed_generation_eq by (simp add: encode_def)
  have e: "tasks ?e6 ! 1 = Inferring 0 [] 1 (round64 (8 / 10)) 40" "heap ?e6 ! 0 = [97, 98, 0]"
    unfolding retry_begun by simp_all
  from r a b c e show ?thesis by (simp add: d)
qed

section \<open>Top-K filtering\<close>

text \<open>The finite scores.\<close>

fun is_fin :: "ieee \<Rightarrow> bool" where
  "is_fin (Fin x) = True"
| "is_fin v = False"

lemma fold_suppress_nth:
  "j < length xs \<Longrightarrow>
     (fold (\<lambda>i s. s[i := NegInf]) is xs) ! j = (if j \<in> set is then NegInf else xs ! j)"
  by (induction "is" arbitrary: xs) (auto simp: nth_list_update)

lemma fold_suppress_length: "length (fold (\<lambda>i s. s[i := NegInf]) is xs) = length xs"
  by (induction "is" arbitrary: xs) auto

lemma sorted_indices_set: "set (sorted_indices scaled) = {..<length scaled}"
  by (auto simp: sorted_indices_def)

lemma sorted_indices_distinct: "distinct (sorted_indices scaled)"
  by (simp add: sorted_indices_def)

lemma sorted_indices_length: "length (sorted_indices scaled) = length scaled"
  by (simp add: sorted_indices_def)


text \<open>The entries that the filter keeps, and those it suppresses.\<close>

definition kept :: "ieee list \<Rightarrow> int \<Rightarrow> nat list" where
  "kept scaled topK = take (nat topK) (sorted_indices scaled)"

definition suppressed :: "ieee list \<Rightarrow> int \<Rightarrow> nat list" where
  "suppressed scaled topK = drop (nat topK) (sorted_indices scaled)"

lemma kept_suppressed:
  "set (kept scaled topK) \<union> set (suppressed scaled topK) = {..<length scaled}"
  "set (kept scaled topK) \<inter> set (suppressed scaled topK) = {}"
proof -
  have split: "kept scaled topK @ suppressed scaled topK = sorted_indices scaled"
    by (simp add: kept_def suppressed_def)
  have "set (kept scaled topK @ suppressed scaled topK) = {..<length scaled}"
    by (simp only: split sorted_indices_set)
  then show "set (kept scaled topK) \<union> set (suppressed scaled topK) = {..<length scaled}"
    by simp
  have "distinct (kept scaled topK @ suppressed scaled topK)"
    by (simp only: split sorted_indices_distinct)
  then show "set (kept scaled topK) \<inter> set (suppressed scaled topK) = {}"
    by simp
qed




lemma topk_filter_nth:
  assumes "0 < topK" "topK < int (length scaled)" "i < length scaled"
  shows "topk_filter scaled topK ! i =
    (if i \<in> set (suppressed scaled topK) then NegInf else scaled ! i)"
  using assms by (simp add: topk_filter_def suppressed_def fold_suppress_nth)

lemma topk_filter_length: "length (topk_filter scaled topK) = length scaled"
  by (simp add: topk_filter_def fold_suppress_length)

subsection \<open>The maximum\<close>

lemma fold_max_fin:
  assumes "\<forall>x \<in> set xs. x = NegInf \<or> is_fin x" "acc = NegInf \<or> is_fin acc"
  shows "fold (\<lambda>s m. if ieee_lt m s then s else m) xs acc \<in> insert acc (set xs)
       \<and> (\<forall>a. Fin a \<in> insert acc (set xs) \<longrightarrow>
            (\<exists>b. fold (\<lambda>s m. if ieee_lt m s then s else m) xs acc = Fin b \<and> a \<le> b))"
  using assms
proof (induction xs arbitrary: acc)
  case Nil
  then show ?case by auto
next
  case (Cons x xs)
  let ?f = "\<lambda>s m. if ieee_lt m s then s else m"
  define acc' where "acc' = (if ieee_lt acc x then x else acc)"
  have x: "x = NegInf \<or> is_fin x" using Cons.prems(1) by simp
  have a': "acc' = NegInf \<or> is_fin acc'" using x Cons.prems(2) by (simp add: acc'_def)
  have mem: "acc' = acc \<or> acc' = x" by (simp add: acc'_def)
  have dom: "\<exists>c. acc' = Fin c \<and> a \<le> c" if "Fin a = acc \<or> Fin a = x" for a
    using that x Cons.prems(2) unfolding acc'_def by (cases acc; cases x) auto
  from Cons.prems(1) have xs: "\<forall>x \<in> set xs. x = NegInf \<or> is_fin x" by simp
  note IH = Cons.IH [OF xs a']
  have f: "fold ?f (x # xs) acc = fold ?f xs acc'" by (simp add: acc'_def)
  have 1: "fold ?f (x # xs) acc \<in> insert acc (set (x # xs))"
    using IH mem unfolding f by auto
  have 2: "\<exists>b. fold ?f (x # xs) acc = Fin b \<and> a \<le> b" if "Fin a \<in> insert acc (set (x # xs))" for a
  proof (cases "Fin a \<in> set xs")
    case True
    with IH show ?thesis unfolding f by blast
  next
    case False
    with that have "Fin a = acc \<or> Fin a = x" by auto
    from dom [OF this] obtain c where c: "acc' = Fin c" "a \<le> c" by blast
    then have "Fin c \<in> insert acc' (set xs)" by simp
    with IH obtain b where "fold ?f xs acc' = Fin b" "c \<le> b" by blast
    with c show ?thesis unfolding f by auto
  qed
  from 1 2 show ?case by blast
qed

lemma max_logit_fin:
  assumes "\<forall>x \<in> set F. x = NegInf \<or> is_fin x" "Fin a0 \<in> set F"
  shows "\<exists>m. max_logit F = Fin m \<and> Fin m \<in> set F \<and> (\<forall>a. Fin a \<in> set F \<longrightarrow> a \<le> m)"
proof -
  from fold_max_fin [OF assms(1), of NegInf]
  have 1: "max_logit F \<in> insert NegInf (set F)"
    and 2: "\<forall>a. Fin a \<in> insert NegInf (set F) \<longrightarrow> (\<exists>b. max_logit F = Fin b \<and> a \<le> b)"
    by (simp_all add: max_logit_def)
  from 2 assms(2) obtain m where m: "max_logit F = Fin m" by auto
  with 1 have "Fin m \<in> set F" by simp
  moreover have "\<forall>a. Fin a \<in> set F \<longrightarrow> a \<le> m" using 2 m by auto
  ultimately show ?thesis using m by blast
qed

subsection \<open>The probabilities and their sums\<close>

definition unit_prob :: "ieee \<Rightarrow> bool" where
  "unit_prob p \<longleftrightarrow> (\<exists>x. p = Fin x \<and> 0 \<le> x \<and> x \<le> 1)"

definition partial_sum :: "nat \<Rightarrow> ieee \<Rightarrow> bool" where
  "partial_sum N c \<longleftrightarrow> (\<exists>v. c = Fin v \<and> round64 v = Fin v \<and> 0 \<le> v \<and> v \<le> of_nat N)"

lemma prob_unit:
  assumes "a \<le> m" "\<bar>a\<bar> < 2 powi 128" "\<bar>m\<bar> < 2 powi 128"
  shows "unit_prob (prob (Fin m) (Fin a))"
proof -
  have "\<bar>a - m\<bar> < 2 powi 128 + 2 powi 128" using assms(2,3) by linarith
  also have "\<dots> = (2::real) powi 129" by simp
  finally have "\<bar>a - m\<bar> < 2 powi 129" .
  from round64_finite [OF this] assms(1) obtain d where d: "round64 (a - m) = Fin d" "d \<le> 0"
    by auto
  show ?thesis
  proof (cases "d = 0")
    case True
    then show ?thesis by (simp add: prob_def ieee_sub_def d unit_prob_def)
  next
    case False
    have "of_int 0 \<le> exp d" "exp d \<le> of_int 1" using d(2) by simp_all
    from round64_between [OF this] obtain y where y: "round64 (exp d) = Fin y" "0 \<le> y" "y \<le> 1"
      by auto
    then have "of_int 0 \<le> y" "y \<le> of_int 1" by simp_all
    from round32_between [OF this] obtain x where "round32 y = Fin x" "0 \<le> x" "x \<le> 1"
      by auto
    then show ?thesis using False by (simp add: prob_def ieee_sub_def d y unit_prob_def)
  qed
qed

lemma prob_max: "prob (Fin m) (Fin m) = Fin 1"
  by (simp add: prob_def ieee_sub_def)

lemma partial_sum_zero: "partial_sum 0 (Fin 0)"
  by (simp add: partial_sum_def)

lemma add_unit:
  assumes "partial_sum N c" "unit_prob p" "N + 1 < 2 ^ 53"
  shows "partial_sum (N + 1) (ieee_add c p)"
proof -
  from assms(1) obtain v where v: "c = Fin v" "0 \<le> v" "v \<le> of_nat N"
    by (auto simp: partial_sum_def)
  from assms(2) obtain x where x: "p = Fin x" "0 \<le> x" "x \<le> 1"
    by (auto simp: unit_prob_def)
  have "of_int 0 \<le> v + x" "v + x \<le> of_int (int N + 1)" using v x by simp_all
  moreover have "\<bar>0 :: int\<bar> < 2 ^ 53" "\<bar>int N + 1\<bar> < 2 ^ 53" using assms(3) by simp_all
  ultimately have "\<exists>y. round64 (v + x) = Fin y \<and> of_int 0 \<le> y \<and> y \<le> of_int (int N + 1)"
    by (rule round64_between)
  then obtain y where y: "round64 (v + x) = Fin y" "0 \<le> y" "y \<le> of_nat (N + 1)" by auto
  from y(1) have "round64 y = Fin y" by (rule round64_idem)
  with y show ?thesis by (auto simp: partial_sum_def v x)
qed

lemma add_zero: "partial_sum N c \<Longrightarrow> ieee_add c (Fin 0) = c"
  by (auto simp: partial_sum_def)

fun at_least_one :: "ieee \<Rightarrow> bool" where
  "at_least_one (Fin v) = (1 \<le> v)"
| "at_least_one c = False"

lemma add_at_least_one:
  assumes "partial_sum N c" "unit_prob p" "N + 1 < 2 ^ 53" "at_least_one c \<or> p = Fin 1"
  shows "at_least_one (ieee_add c p)"
proof -
  from assms(1) obtain v where v: "c = Fin v" "0 \<le> v" "v \<le> of_nat N"
    by (auto simp: partial_sum_def)
  from assms(2) obtain x where x: "p = Fin x" "0 \<le> x" "x \<le> 1"
    by (auto simp: unit_prob_def)
  have "of_int 1 \<le> v + x" "v + x \<le> of_int (int N + 1)" using v x assms(4) by auto
  moreover have "\<bar>1 :: int\<bar> < 2 ^ 53" "\<bar>int N + 1\<bar> < 2 ^ 53" using assms(3) by simp_all
  ultimately have "\<exists>y. round64 (v + x) = Fin y \<and> of_int 1 \<le> y \<and> y \<le> of_int (int N + 1)"
    by (rule round64_between)
  then show ?thesis by (auto simp: v x)
qed

lemma total_partial_sum:
  assumes "\<forall>p \<in> set ps. unit_prob p" "partial_sum N c" "N + length ps < 2 ^ 53"
  shows "partial_sum (N + length ps) (fold (\<lambda>p c. ieee_add c p) ps c)"
  using assms
proof (induction ps arbitrary: N c)
  case Nil
  then show ?case by simp
next
  case (Cons p ps)
  have "partial_sum (N + 1) (ieee_add c p)"
    using Cons.prems by (intro add_unit) simp_all
  moreover have "\<forall>p \<in> set ps. unit_prob p" "N + 1 + length ps < 2 ^ 53"
    using Cons.prems by simp_all
  ultimately have "partial_sum (N + 1 + length ps) (fold (\<lambda>p c. ieee_add c p) ps (ieee_add c p))"
    by (intro Cons.IH)
  then show ?case by (simp add: add.assoc add.commute)
qed

lemma total_at_least_one:
  assumes "\<forall>p \<in> set ps. unit_prob p" "partial_sum N c" "N + length ps < 2 ^ 53"
    and "at_least_one c \<or> Fin 1 \<in> set ps"
  shows "at_least_one (fold (\<lambda>p c. ieee_add c p) ps c)"
  using assms
proof (induction ps arbitrary: N c)
  case Nil
  then show ?case by simp
next
  case (Cons p ps)
  have ps: "partial_sum (N + 1) (ieee_add c p)"
    using Cons.prems by (intro add_unit) simp_all
  have rest: "\<forall>p \<in> set ps. unit_prob p" "N + 1 + length ps < 2 ^ 53"
    using Cons.prems by simp_all
  have "at_least_one (ieee_add c p) \<or> Fin 1 \<in> set ps"
  proof (cases "at_least_one c \<or> p = Fin 1")
    case True
    have "at_least_one (ieee_add c p)"
      using Cons.prems(2) _ _ True by (rule add_at_least_one) (use Cons.prems in simp_all)
    then show ?thesis ..
  next
    case False
    with Cons.prems(4) show ?thesis by auto
  qed
  with rest ps have "at_least_one (fold (\<lambda>p c. ieee_add c p) ps (ieee_add c p))"
    by (intro Cons.IH)
  then show ?case by simp
qed

lemma sum_exp_total:
  assumes "\<forall>s \<in> set xs. unit_prob (prob m s)" "partial_sum N c" "N + length xs < 2 ^ 53"
  shows "fold (\<lambda>s acc. if s = NegInf then acc else ieee_add acc (prob m s)) xs c
       = fold (\<lambda>p c. ieee_add c p) (map (prob m) xs) c"
  using assms
proof (induction xs arbitrary: N c)
  case Nil
  then show ?case by simp
next
  case (Cons s xs)
  have rest: "\<forall>s \<in> set xs. unit_prob (prob m s)" "N + 1 + length xs < 2 ^ 53"
    "N + length xs < 2 ^ 53"
    using Cons.prems by simp_all
  show ?case
  proof (cases "s = NegInf")
    case True
    then have "ieee_add c (prob m s) = c"
      using add_zero [OF Cons.prems(2)] by (simp add: prob_def)
    then show ?thesis
      using Cons.IH [OF rest(1) Cons.prems(2) rest(3)] True by simp
  next
    case False
    have "partial_sum (N + 1) (ieee_add c (prob m s))"
      using Cons.prems by (intro add_unit) simp_all
    from Cons.IH [OF rest(1) this rest(2)] False show ?thesis by simp
  qed
qed

lemma walk_finds:
  assumes "\<forall>p \<in> set ps. unit_prob p" "partial_sum N (Fin v)" "N + length ps < 2 ^ 53"
    and "v \<le> r" "fold (\<lambda>p c. ieee_add c p) ps (Fin v) = Fin S" "r < S"
  shows "\<exists>k. walk ps (Fin r) (Fin v) i = Some k \<and> i \<le> k \<and> k < i + length ps
      \<and> ps ! (k - i) \<noteq> Fin 0"
  using assms
proof (induction ps arbitrary: N v i)
  case Nil
  then show ?case by simp
next
  case (Cons p ps)
  have "partial_sum (N + 1) (ieee_add (Fin v) p)"
    using Cons.prems by (intro add_unit) simp_all
  then obtain v' where v': "ieee_add (Fin v) p = Fin v'" "partial_sum (N + 1) (Fin v')"
    by (auto simp: partial_sum_def)
  show ?case
  proof (cases "r < v'")
    case True
    have "p \<noteq> Fin 0"
    proof
      assume "p = Fin 0"
      with add_zero [OF Cons.prems(2)] v'(1) have "v' = v" by simp
      with True Cons.prems(4) show False by simp
    qed
    with True v'(1) show ?thesis by simp
  next
    case False
    then have le: "v' \<le> r" by simp
    have rest: "\<forall>p \<in> set ps. unit_prob p" "N + 1 + length ps < 2 ^ 53"
      using Cons.prems by simp_all
    have tot: "fold (\<lambda>p c. ieee_add c p) ps (Fin v') = Fin S"
      using Cons.prems(5) v'(1) by simp
    from Cons.IH [OF rest(1) v'(2) rest(2) le tot Cons.prems(6), of "i + 1"]
    obtain k where k: "walk ps (Fin r) (Fin v') (i + 1) = Some k" "i + 1 \<le> k"
      "k < i + 1 + length ps" "ps ! (k - (i + 1)) \<noteq> Fin 0" by blast
    then have "(p # ps) ! (k - i) = ps ! (k - (i + 1))"
      by (simp add: nth_Cons')
    with k False v'(1) show ?thesis by simp
  qed
qed

subsection \<open>The sampled index\<close>

lemma scale_length: "length (scale logits temperature) = length logits"
  by (simp add: scale_def)

lemma to_f32_bound: "to_f32 w = Fin y \<Longrightarrow> \<bar>y\<bar> < 2 powi 128"
  by (cases w) (auto dest: round32_bound)

lemma scale_bound:
  assumes "i < length logits" "scale logits temperature ! i = Fin y"
  shows "\<bar>y\<bar> < 2 powi 128"
proof -
  from assms have "to_f32 (ieee_div (logits ! i) (ieee_max temperature (round64 (1 / 10 ^ 8))))
      = Fin y"
    by (simp add: scale_def)
  then show ?thesis by (rule to_f32_bound)
qed

lemma hd_insort_key:
  "hd (insort_key f x ys) = (if ys = [] \<or> f x \<le> f (hd ys) then x else hd ys)"
  by (cases ys) auto

lemma hd_sort_key_first_min:
  "xs \<noteq> [] \<Longrightarrow> \<exists>k<length xs. hd (sort_key f xs) = xs ! k
      \<and> (\<forall>j<length xs. f (xs ! k) \<le> f (xs ! j)) \<and> (\<forall>j<k. f (xs ! k) < f (xs ! j))"
proof (induction xs)
  case Nil
  then show ?case by simp
next
  case (Cons x xs)
  show ?case
  proof (cases "xs = []")
    case True
    then show ?thesis by simp
  next
    case False
    from Cons.IH [OF False] obtain k where k: "k < length xs" "hd (sort_key f xs) = xs ! k"
      "\<forall>j<length xs. f (xs ! k) \<le> f (xs ! j)" "\<forall>j<k. f (xs ! k) < f (xs ! j)" by blast
    have ne: "sort_key f xs \<noteq> []" using False by (metis length_0_conv length_sort)
    have h: "hd (sort_key f (x # xs)) = (if f x \<le> f (xs ! k) then x else xs ! k)"
      using ne k(2) by (simp add: hd_insort_key)
    show ?thesis
    proof (cases "f x \<le> f (xs ! k)")
      case True
      have "\<forall>j<length (x # xs). f x \<le> f ((x # xs) ! j)"
      proof (intro allI impI)
        fix j assume "j < length (x # xs)"
        then show "f x \<le> f ((x # xs) ! j)"
          using True k(3) by (cases j) (auto intro: order_trans)
      qed
      with True h show ?thesis by (intro exI [of _ 0]) simp
    next
      case False
      have a: "\<forall>j<length (x # xs). f (xs ! k) \<le> f ((x # xs) ! j)"
      proof (intro allI impI)
        fix j assume "j < length (x # xs)"
        then show "f (xs ! k) \<le> f ((x # xs) ! j)"
          using False k(3) by (cases j) auto
      qed
      have b: "\<forall>j<Suc k. f (xs ! k) < f ((x # xs) ! j)"
      proof (intro allI impI)
        fix j assume "j < Suc k"
        then show "f (xs ! k) < f ((x # xs) ! j)"
          using False k(4) by (cases j) auto
      qed
      from False h a b k(1) show ?thesis by (intro exI [of _ "Suc k"]) simp
    qed
  qed
qed

lemma sorted_indices_hd:
  assumes "scaled \<noteq> []"
  shows "\<exists>h<length scaled. hd (sorted_indices scaled) = h
      \<and> (\<forall>j<length scaled. desc_key (scaled ! h) \<le> desc_key (scaled ! j))
      \<and> (\<forall>j<h. desc_key (scaled ! h) < desc_key (scaled ! j))"
proof -
  from assms have "[0..<length scaled] \<noteq> []" by simp
  from hd_sort_key_first_min [OF this, of "\<lambda>i. desc_key (scaled ! i)"]
  show ?thesis by (auto simp: sorted_indices_def)
qed

text \<open>The scores that are numbers below \<^verbatim>\<open>Infinity\<close>: finite or \<^verbatim>\<open>-Infinity\<close>.\<close>

fun below_infinity :: "ieee \<Rightarrow> bool" where
  "below_infinity (Fin x) = True"
| "below_infinity NegInf = True"
| "below_infinity v = False"

lemma below_infinity_cases: "below_infinity a \<Longrightarrow> a = NegInf \<or> is_fin a"
  by (cases a) auto


text \<open>The first index of the sorted list holds a finite score as soon as one score is finite.\<close>

lemma finite_head:
  assumes "list_all below_infinity scaled" "list_ex is_fin scaled"
  shows "is_fin (scaled ! hd (sorted_indices scaled))" "hd (sorted_indices scaled) < length scaled"
proof -
  from assms(2) obtain j where j: "j < length scaled" "is_fin (scaled ! j)"
    by (auto simp: list_ex_length)
  then have ne: "scaled \<noteq> []" by auto
  from sorted_indices_hd [OF ne] obtain h where h: "h < length scaled"
    "hd (sorted_indices scaled) = h"
    "\<forall>j<length scaled. desc_key (scaled ! h) \<le> desc_key (scaled ! j)" by blast
  from assms(1) h(1) have "below_infinity (scaled ! h)" by (simp add: list_all_length)
  moreover have "desc_key (scaled ! h) \<le> desc_key (scaled ! j)" using h(3) j(1) by simp
  ultimately have "is_fin (scaled ! h)"
    using j(2) by (cases "scaled ! h"; cases "scaled ! j") auto
  with h show "is_fin (scaled ! hd (sorted_indices scaled))" "hd (sorted_indices scaled) < length scaled"
    by simp_all
qed

lemma sample_kept:
  assumes "0 < topK" "topK < int (length logits)" "length logits < 2 ^ 53"
    and "list_all below_infinity (scale logits temperature)"
    and "list_ex is_fin (scale logits temperature)"
    and "0 \<le> u" "u < 1" "round64 u = Fin u"
  shows "\<exists>k \<in> set (kept (scale logits temperature) topK). sample u logits temperature topK = int k"
proof -
  define scaled where "scaled = scale logits temperature"
  define F where "F = topk_filter scaled topK"
  define n where "n = length logits"
  have ls: "length scaled = n" by (simp add: scaled_def n_def scale_length)
  have lF: "length F = n" by (simp add: F_def topk_filter_length ls)
  have Fn: "F ! i = (if i \<in> set (suppressed scaled topK) then NegInf else scaled ! i)"
    if "i < n" for i
    unfolding F_def using assms(1,2) that by (intro topk_filter_nth) (simp_all add: ls n_def)
  have fin: "scaled ! i = NegInf \<or> is_fin (scaled ! i)" if "i < n" for i
    using assms(4) that
    by (simp add: list_all_length scaled_def [symmetric] ls below_infinity_cases)
  have bound: "\<bar>y\<bar> < 2 powi 128" if "i < n" "scaled ! i = Fin y" for i y
    using that scale_bound [of i logits temperature y] by (simp add: scaled_def n_def)
  have Fcases: "x = NegInf \<or> is_fin x" if "x \<in> set F" for x
  proof -
    from that obtain i where "i < n" "x = F ! i" by (auto simp: in_set_conv_nth lF)
    then show ?thesis using Fn [of i] fin [of i] by auto
  qed
  have Fbound: "\<bar>a\<bar> < 2 powi 128" if "Fin a \<in> set F" for a
  proof -
    from that obtain i where i: "i < n" "Fin a = F ! i" by (auto simp: in_set_conv_nth lF)
    then have "scaled ! i = Fin a" using Fn [of i] by (auto split: if_splits)
    with i(1) show ?thesis by (rule bound)
  qed
  define i0 where "i0 = hd (sorted_indices scaled)"
  have i0f: "is_fin (scaled ! i0)" "i0 < n"
    using finite_head [of scaled] assms(4,5) by (simp_all add: i0_def scaled_def ls [symmetric])
  have "sorted_indices scaled \<noteq> []"
    using i0f(2) by (metis length_0_conv not_less_zero sorted_indices_length ls)
  then have i0: "i0 \<in> set (kept scaled topK)"
    using assms(1) by (cases "sorted_indices scaled"; cases "nat topK") (simp_all add: kept_def i0_def)
  with kept_suppressed [of scaled topK] have i0n: "i0 < n" "i0 \<notin> set (suppressed scaled topK)"
    by (auto simp: ls)
  obtain a0 where "scaled ! i0 = Fin a0" using i0f(1) by (cases "scaled ! i0") auto
  then have "F ! i0 = Fin a0" using Fn [OF i0n(1)] i0n(2) by simp
  then have "Fin a0 \<in> set F" using i0n(1) lF by (metis nth_mem)
  with Fcases have "\<exists>m. max_logit F = Fin m \<and> Fin m \<in> set F \<and> (\<forall>a. Fin a \<in> set F \<longrightarrow> a \<le> m)"
    by (intro max_logit_fin [of F a0]) auto
  then obtain m where m: "max_logit F = Fin m" "Fin m \<in> set F" "\<forall>a. Fin a \<in> set F \<longrightarrow> a \<le> m"
    by blast
  have mb: "\<bar>m\<bar> < 2 powi 128" using m(2) by (rule Fbound)
  have unit: "unit_prob (prob (Fin m) x)" if "x \<in> set F" for x
  proof (cases x)
    case (Fin a)
    with that m(3) have "a \<le> m" by simp
    moreover have "\<bar>a\<bar> < 2 powi 128" using that Fin by (intro Fbound) simp
    ultimately show ?thesis using mb unfolding Fin by (rule prob_unit)
  next
    case NegInf
    then show ?thesis by (simp add: prob_def unit_prob_def)
  qed (use Fcases [OF that] in auto)
  define probs where "probs = softmax_probs F"
  have pm: "probs = map (prob (Fin m)) F" by (simp add: probs_def softmax_probs_def m(1))
  have lp: "length probs = n" by (simp add: pm lF)
  have punit: "\<forall>p \<in> set probs. unit_prob p" using unit by (auto simp: pm)
  have one: "Fin 1 \<in> set probs"
    using m(2) prob_max [of m] by (force simp: pm)
  have len: "0 + length probs < 2 ^ 53" using assms(3) by (simp add: lp n_def)
  have unitF: "\<forall>s \<in> set F. unit_prob (prob (Fin m) s)" using unit by blast
  have lenF: "0 + length F < 2 ^ 53" using assms(3) by (simp add: lF n_def)
  have se: "sum_exp F = fold (\<lambda>p c. ieee_add c p) probs (Fin 0)"
    unfolding sum_exp_def m(1) pm by (rule sum_exp_total [OF unitF partial_sum_zero lenF])
  from total_partial_sum [OF punit partial_sum_zero len]
  obtain S where S: "fold (\<lambda>p c. ieee_add c p) probs (Fin 0) = Fin S" "round64 S = Fin S"
    by (auto simp: partial_sum_def)
  from total_at_least_one [OF punit partial_sum_zero len] one S(1) have S1: "1 \<le> S"
    by simp
  from round64_draw [OF assms(8,6,7) S(2) S1]
  obtain r where r: "round64 (u * S) = Fin r" "0 \<le> r" "r < S" by blast
  have mul: "ieee_mul (Fin u) (sum_exp F) = Fin r" by (simp add: se S(1) r(1))
  from walk_finds [OF punit partial_sum_zero len r(2) S(1) r(3), of 0] obtain k
    where k: "walk probs (Fin r) (Fin 0) 0 = Some k" "k < n" "probs ! k \<noteq> Fin 0"
    by (auto simp: lp)
  have "F ! k \<noteq> NegInf"
    using k(2,3) by (auto simp: pm lF prob_def)
  then have "k \<notin> set (suppressed scaled topK)" using Fn [OF k(2)] by auto
  with kept_suppressed(1) [of scaled topK] k(2) have "k \<in> set (kept scaled topK)"
    by (auto simp: ls)
  moreover have "sample u logits temperature topK = int k"
    using k(1)
    by (simp add: sample_def Let_def scaled_def [symmetric] F_def [symmetric] probs_def [symmetric]
        mul)
  ultimately show ?thesis unfolding scaled_def by blast
qed


subsection \<open>The scores of some arrays\<close>






text \<open>
  The scaled scores are finite for finite logits of magnitude at most \<open>2 ^ 99\<close> and every
  temperature other than \<^verbatim>\<open>NaN\<close>: the divisor is at least \<open>2 powi (- 27)\<close>.
\<close>

lemma scaled_finite:
  assumes "\<forall>l \<in> set logits. \<exists>x. l = Fin x \<and> \<bar>x\<bar> \<le> 2 ^ 99" "temperature \<noteq> NaNv"
  shows "list_all is_fin (scale logits temperature)"
proof -
  obtain c where c: "round64 (1 / 10 ^ 8) = Fin c" "0 < c" "2 powi (- 27) \<le> c"
    using epsilon_bounds by blast
  have quot: "is_fin (to_f32 (ieee_div (Fin x) (Fin d)))" if "\<bar>x\<bar> \<le> 2 ^ 99" "c \<le> d" for x d
  proof -
    have d: "0 < d" "2 powi (- 27) \<le> d" using that(2) c by simp_all
    have "\<bar>x / d\<bar> = \<bar>x\<bar> / d" using d(1) by simp
    also have "\<dots> \<le> 2 ^ 99 / d" using that(1) d(1) by (simp add: divide_right_mono)
    also have "\<dots> \<le> 2 ^ 99 / 2 powi (- 27)" using d by (intro divide_left_mono) simp_all
    also have "\<dots> = (2::real) powi 126" by (simp add: power_int_minus)
    finally have "\<bar>x / d\<bar> \<le> 2 powi 126" .
    from round64_small [OF this] obtain y where y: "round64 (x / d) = Fin y" "\<bar>y\<bar> \<le> 2 powi 126"
      by auto
    from round32_small [OF y(2)] obtain z where "round32 y = Fin z" by auto
    then show ?thesis using d(1) y(1) by simp
  qed
  have "is_fin (to_f32 (ieee_div l (ieee_max temperature (Fin c))))"
    if "l \<in> set logits" for l
  proof -
    from assms(1) that obtain x where x: "l = Fin x" "\<bar>x\<bar> \<le> 2 ^ 99" by blast
    show ?thesis
    proof (cases temperature)
      case NaNv
      with assms(2) show ?thesis by simp
    next
      case NegInf
      then show ?thesis using quot [OF x(2), of c] by (simp add: ieee_max_def x(1))
    next
      case PosInf
      then show ?thesis by (simp add: ieee_max_def x(1))
    next
      case (Fin t)
      show ?thesis
      proof (cases "t < c")
        case True
        then show ?thesis using quot [OF x(2), of c] by (simp add: Fin ieee_max_def x(1))
      next
        case False
        then show ?thesis using quot [OF x(2), of t] by (simp add: Fin ieee_max_def x(1))
      qed
    qed
  qed
  then show ?thesis unfolding scale_def c(1) by (simp add: list_all_iff)
qed

text \<open>The array \<^verbatim>\<open>Float32Array.of(0.1, 5.0, 0.2)\<close> at the temperature 1.\<close>

definition example_logits :: "ieee list" where
  "example_logits = [to_f32 (round64 (1 / 10)), Fin 5, to_f32 (round64 (2 / 10))]"

lemma small_logit:
  assumes "0 \<le> x" "x \<le> 1 / 4"
  shows "\<exists>y. to_f32 (ieee_div (to_f32 (round64 x)) (Fin 1)) = Fin y \<and> 0 \<le> y \<and> y \<le> 1 / 4"
proof -
  have p: "(2::real) powi (- 2) = 1 / 4" by (simp add: power_int_minus)
  have step64: "\<exists>y. round64 z = Fin y \<and> 0 \<le> y \<and> y \<le> 1 / 4" if "0 \<le> z" "z \<le> 1 / 4" for z
  proof -
    have "\<bar>z\<bar> \<le> 2 powi (- 2)" using that p by simp
    from round64_small [OF this] that(1) show ?thesis by (auto simp: p)
  qed
  have step32: "\<exists>y. round32 z = Fin y \<and> 0 \<le> y \<and> y \<le> 1 / 4" if "0 \<le> z" "z \<le> 1 / 4" for z
  proof -
    have "\<bar>z\<bar> \<le> 2 powi (- 2)" using that p by simp
    from round32_small [OF this] that(1) show ?thesis by (auto simp: p)
  qed
  from step64 [OF assms] obtain a where a: "round64 x = Fin a" "0 \<le> a" "a \<le> 1 / 4" by blast
  from step32 [OF a(2,3)] obtain b where b: "round32 a = Fin b" "0 \<le> b" "b \<le> 1 / 4" by blast
  from step64 [OF b(2,3)] obtain d where d: "round64 b = Fin d" "0 \<le> d" "d \<le> 1 / 4" by blast
  from step32 [OF d(2,3)] obtain e where e: "round32 d = Fin e" "0 \<le> e" "e \<le> 1 / 4" by blast
  show ?thesis using e(2,3) by (simp add: a(1) b(1) d(1) e(1))
qed

lemma scale_example:
  "\<exists>a b. scale example_logits (Fin 1) = [Fin a, Fin 5, Fin b] \<and> a \<le> 1 / 4 \<and> b \<le> 1 / 4"
proof -
  obtain c where c: "round64 (1 / 10 ^ 8) = Fin c" "0 < c" "c \<le> 1 / 4"
    using epsilon_bounds by blast
  have m: "ieee_max (Fin 1) (round64 (1 / 10 ^ 8)) = Fin 1"
    using c by (simp add: ieee_max_def)
  obtain a where a: "to_f32 (ieee_div (to_f32 (round64 (1 / 10))) (Fin 1)) = Fin a" "a \<le> 1 / 4"
    using small_logit [of "1 / 10"] by auto
  obtain b where b: "to_f32 (ieee_div (to_f32 (round64 (2 / 10))) (Fin 1)) = Fin b" "b \<le> 1 / 4"
    using small_logit [of "2 / 10"] by auto
  have "scale example_logits (Fin 1) = [Fin a, Fin 5, Fin b]"
    unfolding scale_def m example_logits_def using a(1) b(1) by simp
  with a(2) b(2) show ?thesis by blast
qed



text \<open>The array \<^verbatim>\<open>Float32Array.of(0.1, 5.0, 0.2)\<close> with \<open>topK = 1\<close>: index 1 is returned.\<close>

lemma example_top1:
  assumes "0 \<le> u" "u < 1" "round64 u = Fin u"
  shows "sample u example_logits (Fin 1) 1 = 1"
proof -
  from scale_example obtain a b
    where s: "scale example_logits (Fin 1) = [Fin a, Fin 5, Fin b]" and ab: "a \<le> 1 / 4" "b \<le> 1 / 4"
    by blast
  have l: "(0::int) < 1" "1 < int (length example_logits)" "length example_logits < 2 ^ 53"
    by (simp_all add: example_logits_def)
  have f: "list_all below_infinity (scale example_logits (Fin 1))"
    "list_ex is_fin (scale example_logits (Fin 1))"
    unfolding s by simp_all
  have k: "kept (scale example_logits (Fin 1)) 1 = [1]"
    unfolding s using ab by (simp add: kept_def sorted_indices_def)
  from sample_kept [OF l f assms] show ?thesis
    unfolding k by simp
qed

end
